theory Spec2Isabelle
  imports Complex_Main "HOL-Library.Sublist"
begin

section \<open>Data model of scripts/postinstall.js\<close>

type_synonym path = string
type_synonym url = string

text \<open>
  A JavaScript value that is either \<open>undefined\<close>/\<open>null\<close> or a string is a
  \<open>string option\<close>. Such a value is truthy when it is a non-empty string; this is the test
  behind \<open>accountId ? ... : ...\<close>, \<open>!licenseKey\<close> and \<open>response.headers.location\<close>.
\<close>

definition truthy :: "string option \<Rightarrow> bool" where
  "truthy v = (case v of None \<Rightarrow> False | Some s \<Rightarrow> s \<noteq> [])"

text \<open>
  The options bag handed to \<open>request\<close>. A key that is absent is \<open>None\<close>; the key
  \<open>auth\<close> set to \<open>null\<close> is \<open>Some None\<close>. A call without options (\<open>undefined\<close>,
  which the spread \<open>...options\<close> treats as empty) is \<open>no_options\<close>.
\<close>

record options =
  opt_method :: "string option"
  opt_auth :: "string option option"

definition no_options :: options where
  "no_options = \<lparr>opt_method = None, opt_auth = None\<rparr>"

definition head_options :: options where
  "head_options = \<lparr>opt_method = Some ''HEAD'', opt_auth = None\<rparr>"

text \<open>
  What happens, in order, while a response body is consumed by the pipeline
  \<open>response.pipe(gunzip).pipe(tar.t())\<close> and by the write streams created for its
  entries. Three events are delivered to the handlers registered in \<open>main\<close>: an
  archive entry with its path and bytes, the \<open>end\<close> or \<open>error\<close> event of the archive
  stream, and the \<open>finish\<close> or \<open>error\<close> event of the write stream of the \<open>i\<close>-th
  registered write. Two are steps of a write stream on the file system, to which no
  handler is attached: \<open>Opened i\<close>, its file has been opened for writing (created, or
  truncated when it was there), and \<open>Wrote i n\<close>, the next \<open>n\<close> bytes piped into it
  have been written at its position in the file. When the list is used up and a promise
  is still pending, nothing is left that could settle it.
\<close>

datatype pipe_event =
    Entry path "nat list"
  | Opened nat
  | Wrote nat nat
  | Finish nat
  | WriteError nat string
  | End
  | StreamError string

record response =
  statusCode :: nat
  statusMessage :: string
  headers :: "string \<rightharpoonup> string"
  body :: "pipe_event list"

text \<open>
  \<open>https.request\<close> either calls back with a response or emits \<open>error\<close> (also when
  the URL is rejected), which rejects the promise.
\<close>

datatype reply = Reply response | NetError string

text \<open>
  What ends an \<open>async\<close> function without a result. The first five are the errors
  thrown or passed to \<open>reject\<close>. \<open>Unsettled\<close> is not an error object: it stands
  for an \<open>await\<close> whose promise is still pending when no event is left that could
  settle it. Nothing after such an \<open>await\<close> runs, and no \<open>catch\<close> runs either.
\<close>

datatype error =
    TransportError string
  | RequestFailed url nat string
  | StatFailed path
  | ArchiveError string
  | WriteFailed string
  | Unsettled

datatype effect =
    HttpRequest url "string option" "string option"
  | ConsoleLog string
  | ConsoleError string
  | ConsoleErrorObj error

record fsfile =
  bytes :: "nat list"
  mtimeMs :: rat

text \<open>
  The world the script runs in: the regular files it can see, the directories with their
  modification times, the remote side (the reply to a request may depend on everything
  done so far), the clock that stamps what is written, and the trace of requests issued
  and console lines printed, oldest first.
\<close>

record world =
  files :: "path \<rightharpoonup> fsfile"
  dirs :: "path \<rightharpoonup> rat"
  net :: "effect list \<Rightarrow> url \<Rightarrow> string option \<Rightarrow> string option \<Rightarrow> reply"
  clock :: rat
  trace :: "effect list"

text \<open>
  The module-level constants of the script: the credentials resolved at start-up, the
  directory of the script (\<open>__dirname\<close>) and the built-in \<open>Date.parse\<close> on strings
  (\<open>None\<close> is \<open>NaN\<close>).
\<close>

record env =
  accountId :: "string option"
  licenseKey :: string
  dirname :: path
  dateParse :: "string \<Rightarrow> int option"

definition emit :: "effect \<Rightarrow> world \<Rightarrow> world" where
  "emit e w = w\<lparr>trace := trace w @ [e]\<rparr>"

section \<open>The request layer\<close>

text \<open>Lines 48-51.\<close>

definition link :: "env \<Rightarrow> string \<Rightarrow> url" where
  "link cfg edition =
     (if truthy (accountId cfg)
      then ''https://download.maxmind.com/geoip/databases/'' @ edition @ ''/download?suffix=tar.gz''
      else ''https://download.maxmind.com/app/geoip_download?edition_id='' @ edition
           @ ''&license_key='' @ licenseKey cfg @ ''&suffix=tar.gz'')"

text \<open>
  Lines 67-70: the object \<open>{auth: accountId ? `${accountId}:${licenseKey}` : null, ...options}\<close>.
  A key of \<open>options\<close> overrides the default.
\<close>

definition default_auth :: "env \<Rightarrow> string option" where
  "default_auth cfg =
     (case accountId cfg of
        None \<Rightarrow> None
      | Some a \<Rightarrow> if a \<noteq> [] then Some (a @ '':'' @ licenseKey cfg) else None)"

definition request_auth :: "env \<Rightarrow> options \<Rightarrow> string option" where
  "request_auth cfg opts = (case opt_auth opts of None \<Rightarrow> default_auth cfg | Some a \<Rightarrow> a)"

text \<open>Lines 63-77: issue one request and await its response.\<close>

definition send :: "env \<Rightarrow> url \<Rightarrow> options \<Rightarrow> world \<Rightarrow> reply \<times> world" where
  "send cfg u opts w =
     (net w (trace w) u (opt_method opts) (request_auth cfg opts),
      emit (HttpRequest u (opt_method opts) (request_auth cfg opts)) w)"

text \<open>Line 79.\<close>

definition is_redirect :: "response \<Rightarrow> bool" where
  "is_redirect r = (statusCode r \<ge> 300 \<and> statusCode r < 400 \<and> truthy (headers r ''location''))"

definition location :: "response \<Rightarrow> url" where
  "location r = (case headers r ''location'' of None \<Rightarrow> [] | Some l \<Rightarrow> l)"

text \<open>
  Lines 62-92. The function calls itself on a redirect, so it need not return: \<open>None\<close>
  is the run that follows redirects forever.
\<close>

partial_function (option) request ::
  "env \<Rightarrow> url \<Rightarrow> options \<Rightarrow> world \<Rightarrow> ((error + response) \<times> world) option" where
  "request cfg u opts w =
     (case send cfg u opts w of
        (NetError e, w') \<Rightarrow> Some (Inl (TransportError e), w')
      | (Reply r, w') \<Rightarrow>
          if is_redirect r then request cfg (location r) (opts\<lparr>opt_auth := Some None\<rparr>) w'
          else if statusCode r \<noteq> 200
            then Some (Inl (RequestFailed u (statusCode r) (statusMessage r)), w')
          else Some (Inr r, w'))"

declare request.simps [code]

text \<open>
  \<open>hops cfg n u opts w\<close>: the first \<open>n\<close> responses, starting with the request to
  \<open>u\<close>, are all redirects (a 3xx status with a \<open>location\<close> header), each answered as
  lines 81-84 do; the result is the URL, the options and the world of the request that
  comes next.
\<close>

fun hops :: "env \<Rightarrow> nat \<Rightarrow> url \<Rightarrow> options \<Rightarrow> world \<Rightarrow> (url \<times> options \<times> world) option" where
  "hops cfg 0 u opts w = Some (u, opts, w)"
| "hops cfg (Suc n) u opts w =
     (case send cfg u opts w of
        (Reply r, w') \<Rightarrow>
          if is_redirect r then hops cfg n (location r) (opts\<lparr>opt_auth := Some None\<rparr>) w' else None
      | (NetError e, w') \<Rightarrow> None)"

text \<open>What a call of \<open>request\<close> that returns leaves of the world.\<close>

definition request_inv :: "env \<Rightarrow> url \<Rightarrow> options \<Rightarrow> world \<Rightarrow> (error + response) \<times> world \<Rightarrow> bool" where
  "request_inv cfg u opts w y \<longleftrightarrow>
     files (snd y) = files w \<and> dirs (snd y) = dirs w \<and> net (snd y) = net w
     \<and> clock (snd y) = clock w
     \<and> (\<exists>rest. trace (snd y) = trace w @ HttpRequest u (opt_method opts) (request_auth cfg opts) # rest)"


section \<open>Strings and paths\<close>

text \<open>\<open>s.endsWith(suf)\<close> of JavaScript.\<close>

definition endsWith :: "string \<Rightarrow> string \<Rightarrow> bool" where
  "endsWith s suf = (length suf \<le> length s \<and> drop (length s - length suf) s = suf)"

text \<open>
  \<open>path.basename\<close> and \<open>path.join\<close> as Node's \<open>path.posix\<close> defines them: the
  base name is the last segment, trailing separators apart; \<open>join\<close> glues the non-empty
  arguments with \<open>/\<close> and normalises the result (empty and \<open>.\<close> segments dropped,
  \<open>..\<close> removing the segment before it).
\<close>

definition basename :: "path \<Rightarrow> string" where
  "basename p =
     rev (takeWhile (\<lambda>c. c \<noteq> CHR ''/'') (dropWhile (\<lambda>c. c = CHR ''/'') (rev p)))"

fun segments :: "string \<Rightarrow> string list" where
  "segments [] = [Nil]"
| "segments (c # cs) =
     (if c = CHR ''/'' then [] # segments cs
      else (case segments cs of [] \<Rightarrow> [c # Nil] | s # ss \<Rightarrow> (c # s) # ss))"

fun normalizeString :: "bool \<Rightarrow> string list \<Rightarrow> string list \<Rightarrow> string list" where
  "normalizeString allowAboveRoot res [] = res"
| "normalizeString allowAboveRoot res (s # ss) =
     (if s = [] \<or> s = ''.'' then normalizeString allowAboveRoot res ss
      else if s = ''..'' then
        (if res \<noteq> [] \<and> last res \<noteq> ''..'' then normalizeString allowAboveRoot (butlast res) ss
         else if allowAboveRoot then normalizeString allowAboveRoot (res @ [''..'']) ss
         else normalizeString allowAboveRoot res ss)
      else normalizeString allowAboveRoot (res @ [s]) ss)"

fun glue :: "string list \<Rightarrow> string" where
  "glue [] = []"
| "glue [s] = s"
| "glue (s # ss) = s @ ''/'' @ glue ss"

definition normalize :: "path \<Rightarrow> path" where
  "normalize p =
     (if p = [] then ''.''
      else
        let isAbsolute = (hd p = CHR ''/'');
            trailingSeparator = (last p = CHR ''/'');
            q = glue (normalizeString (\<not> isAbsolute) [] (segments p))
        in if q = [] then (if isAbsolute then ''/'' else if trailingSeparator then ''./'' else ''.'')
           else (if isAbsolute then ''/'' else []) @ q @ (if trailingSeparator then ''/'' else []))"

definition path_join :: "string list \<Rightarrow> path" where
  "path_join args =
     (case filter (\<lambda>a. a \<noteq> []) args of [] \<Rightarrow> ''.'' | as \<Rightarrow> normalize (glue as))"

text \<open>Line 58.\<close>

definition downloadPath :: "env \<Rightarrow> path" where
  "downloadPath cfg = path_join [dirname cfg, ''..'', ''dbs'']"

section \<open>Editions\<close>

text \<open>Lines 53-56, with \<open>selected\<close> the array returned by \<open>getSelectedDbs()\<close>.\<close>

definition editionIds :: "string list \<Rightarrow> string list" where
  "editionIds selected =
     map (\<lambda>e. ''GeoLite2-'' @ e) (filter (\<lambda>e. e \<in> set selected) [''City'', ''Country'', ''ASN''])"

section \<open>The staleness check\<close>

text \<open>
  \<open>Date.parse\<close> of a header: an absent header is \<open>undefined\<close>, which parses to
  \<open>NaN\<close>. The comparison \<open>a < b\<close> of numbers is false when \<open>b\<close> is \<open>NaN\<close>;
  \<open>mtimeMs\<close> is a finite number of milliseconds, with a fraction.
\<close>

definition Date_parse :: "env \<Rightarrow> string option \<Rightarrow> int option" where
  "Date_parse cfg v = (case v of None \<Rightarrow> None | Some s \<Rightarrow> dateParse cfg s)"

definition js_less :: "rat \<Rightarrow> int option \<Rightarrow> bool" where
  "js_less a b = (case b of None \<Rightarrow> False | Some t \<Rightarrow> a < of_int t)"

text \<open>
  \<open>fs.existsSync\<close> is true of a regular file and of a directory; \<open>fs.statSync\<close>
  gives the modification time of either and throws when nothing is there.
\<close>

definition existsSync :: "world \<Rightarrow> path \<Rightarrow> bool" where
  "existsSync w p = (files w p \<noteq> None \<or> dirs w p \<noteq> None)"

definition statSync_mtimeMs :: "world \<Rightarrow> path \<Rightarrow> rat option" where
  "statSync_mtimeMs w p = (case files w p of Some f \<Rightarrow> Some (mtimeMs f) | None \<Rightarrow> dirs w p)"

text \<open>Lines 95-103.\<close>

definition isOutdated ::
  "env \<Rightarrow> path \<Rightarrow> url \<Rightarrow> world \<Rightarrow> ((error + bool) \<times> world) option" where
  "isOutdated cfg dbPath u w =
     (if \<not> existsSync w dbPath then Some (Inr True, w)
      else
        (case request cfg u head_options w of
           None \<Rightarrow> None
         | Some (Inl e, w') \<Rightarrow> Some (Inl e, w')
         | Some (Inr r, w') \<Rightarrow>
             (let remoteLastModified = Date_parse cfg (headers r ''last-modified'') in
              case statSync_mtimeMs w' dbPath of
                None \<Rightarrow> Some (Inl (StatFailed dbPath), w')
              | Some localLastModified \<Rightarrow>
                  Some (Inr (js_less localLastModified remoteLastModified), w'))))"

section \<open>Extraction\<close>

text \<open>
  The promises pushed to \<open>entryPromises\<close>. Each belongs to one write stream: the file
  it writes, the bytes piped into it, whether the file has been opened, how many of the
  bytes have been written, and the state of the promise.
\<close>

datatype pstate = Pending | Fulfilled | Rejected string

record pwrite =
  w_dst :: path
  w_data :: "nat list"
  w_opened :: bool
  w_written :: nat
  w_state :: pstate

type_synonym pipeline = "pwrite list \<times> world"

text \<open>
  Lines 122-130, the handler of \<open>entry\<close>. \<open>fs.createWriteStream\<close> returns at once;
  the file is opened, and so created, later.
\<close>

definition on_entry :: "env \<Rightarrow> path \<Rightarrow> nat list \<Rightarrow> pipeline \<Rightarrow> pipeline" where
  "on_entry cfg p b = (\<lambda>(ps, w).
     if endsWith p ''.mmdb'' then
       let dstFilename = path_join [downloadPath cfg, basename p];
           w1 = emit (ConsoleLog (''writing '' @ dstFilename @ '' ...'')) w
       in (ps @ [\<lparr>w_dst = dstFilename, w_data = b, w_opened = False, w_written = 0,
                   w_state = Pending\<rparr>], w1)
     else (ps, w))"

text \<open>
  The file system under a write stream. Opening with the flag \<open>w\<close> creates the file or
  empties it. A write puts its bytes at the position of the stream, over what is there,
  after filling a gap with zeros.
\<close>

definition fs_open :: "path \<Rightarrow> world \<Rightarrow> world" where
  "fs_open dst w = w\<lparr>files := (files w)(dst \<mapsto> \<lparr>bytes = [], mtimeMs = clock w\<rparr>)\<rparr>"

definition write_at :: "nat list \<Rightarrow> nat \<Rightarrow> nat list \<Rightarrow> nat list" where
  "write_at old pos bs =
     take pos old @ replicate (pos - length old) 0 @ bs @ drop (pos + length bs) old"

definition fs_write :: "path \<Rightarrow> nat \<Rightarrow> nat list \<Rightarrow> world \<Rightarrow> world" where
  "fs_write dst pos bs w =
     w\<lparr>files := (files w)(dst \<mapsto>
         \<lparr>bytes = write_at (case files w dst of None \<Rightarrow> [] | Some f \<Rightarrow> bytes f) pos bs,
          mtimeMs = clock w\<rparr>)\<rparr>"

text \<open>
  The steps of the write stream of the \<open>i\<close>-th registered write, while its promise is
  pending. A directory cannot be opened for writing. Each stream has its own position,
  so two streams on one file write over each other.
\<close>

definition on_opened :: "nat \<Rightarrow> pipeline \<Rightarrow> pipeline" where
  "on_opened i = (\<lambda>(ps, w).
     if i < length ps \<and> w_state (ps ! i) = Pending \<and> \<not> w_opened (ps ! i)
        \<and> dirs w (w_dst (ps ! i)) = None then
       (ps[i := (ps ! i)\<lparr>w_opened := True\<rparr>], fs_open (w_dst (ps ! i)) w)
     else (ps, w))"

definition on_wrote :: "nat \<Rightarrow> nat \<Rightarrow> pipeline \<Rightarrow> pipeline" where
  "on_wrote i n = (\<lambda>(ps, w).
     if i < length ps \<and> w_state (ps ! i) = Pending \<and> w_opened (ps ! i) then
       let chunk = take n (drop (w_written (ps ! i)) (w_data (ps ! i)))
       in (ps[i := (ps ! i)\<lparr>w_written := w_written (ps ! i) + length chunk\<rparr>],
           fs_write (w_dst (ps ! i)) (w_written (ps ! i)) chunk w)
     else (ps, w))"

text \<open>
  Line 127: \<open>finish\<close> resolves and \<open>error\<close> rejects the promise of the write; a
  settled promise stays as it is. A stream reports \<open>finish\<close> when all its bytes are in
  the file: what had not been opened or written by then is opened and written first.
\<close>

definition on_finish :: "nat \<Rightarrow> pipeline \<Rightarrow> pipeline" where
  "on_finish i = (\<lambda>(ps, w).
     if i < length ps \<and> w_state (ps ! i) = Pending then
       (case on_opened i (ps, w) of (ps1, w1) \<Rightarrow>
          if w_opened (ps1 ! i) then
            (ps1[i := (ps1 ! i)\<lparr>w_written := length (w_data (ps1 ! i)), w_state := Fulfilled\<rparr>],
             fs_write (w_dst (ps1 ! i)) (w_written (ps1 ! i))
               (drop (w_written (ps1 ! i)) (w_data (ps1 ! i))) w1)
          else (ps, w))
     else (ps, w))"

definition on_write_error :: "nat \<Rightarrow> string \<Rightarrow> pipeline \<Rightarrow> pipeline" where
  "on_write_error i msg = (\<lambda>(ps, w).
     if i < length ps \<and> w_state (ps ! i) = Pending then
       (ps[i := (ps ! i)\<lparr>w_state := Rejected msg\<rparr>], w)
     else (ps, w))"

text \<open>
  One event, apart from what \<open>end\<close> and \<open>error\<close> of the archive stream do to the
  promise of line 119. After that promise is settled they change nothing.
\<close>

fun deliver :: "env \<Rightarrow> pipe_event \<Rightarrow> pipeline \<Rightarrow> pipeline" where
  "deliver cfg (Entry p b) s = on_entry cfg p b s"
| "deliver cfg (Opened i) s = on_opened i s"
| "deliver cfg (Wrote i n) s = on_wrote i n s"
| "deliver cfg (Finish i) s = on_finish i s"
| "deliver cfg (WriteError i msg) s = on_write_error i msg s"
| "deliver cfg End s = s"
| "deliver cfg (StreamError msg) s = s"

text \<open>
  \<open>Promise.all\<close> over the promises it was called with: rejected once one of them is
  rejected (with the error of the first one in the array when several already are),
  fulfilled once all of them are, pending (\<open>None\<close>) otherwise.
\<close>

fun first_rejected :: "pwrite list \<Rightarrow> string option" where
  "first_rejected [] = None"
| "first_rejected (p # ps) =
     (case w_state p of Rejected msg \<Rightarrow> Some msg | _ \<Rightarrow> first_rejected ps)"

definition promise_all :: "pwrite list \<Rightarrow> (error + pwrite list) option" where
  "promise_all ps =
     (case first_rejected ps of
        Some msg \<Rightarrow> Some (Inl (WriteFailed msg))
      | None \<Rightarrow> if list_all (\<lambda>p. w_state p = Fulfilled) ps then Some (Inr ps) else None)"

text \<open>
  Line 134: \<open>await Promise.all(entryPromises)\<close>, called when \<open>n\<close> promises had been
  pushed; it waits for these \<open>n\<close>, also when the handler of \<open>entry\<close> pushes another
  one later. Events are taken until the promise settles. A write that failed before
  line 134 is reached stays rejected until then: the promise has no handler earlier.
\<close>

fun await_all ::
  "env \<Rightarrow> nat \<Rightarrow> pipe_event list \<Rightarrow> pipeline \<Rightarrow> ((error + pwrite list) \<times> world) option" where
  "await_all cfg n evs (ps, w) =
     (case promise_all (take n ps) of
        Some r \<Rightarrow> Some (r, w)
      | None \<Rightarrow>
         (case evs of
            [] \<Rightarrow> Some (Inl Unsettled, w)
          | ev # rest \<Rightarrow> await_all cfg n rest (deliver cfg ev (ps, w))))"

text \<open>
  Lines 119-133: the promise that \<open>end\<close> resolves and \<open>error\<close> rejects, awaited while
  the entries arrive; then line 134.
\<close>

fun await_end ::
  "env \<Rightarrow> pipe_event list \<Rightarrow> pipeline \<Rightarrow> ((error + pwrite list) \<times> world) option" where
  "await_end cfg [] (ps, w) = Some (Inl Unsettled, w)"
| "await_end cfg (End # evs) (ps, w) = await_all cfg (length ps) evs (ps, w)"
| "await_end cfg (StreamError msg # evs) (ps, w) = Some (Inl (ArchiveError msg), w)"
| "await_end cfg (ev # evs) (ps, w) = await_end cfg evs (deliver cfg ev (ps, w))"

text \<open>Lines 118-134: \<open>entryPromises\<close> starts empty.\<close>

definition extraction ::
  "env \<Rightarrow> response \<Rightarrow> world \<Rightarrow> ((error + pwrite list) \<times> world) option" where
  "extraction cfg resp w = await_end cfg (body resp) ([], w)"

text \<open>
  Vocabulary for the properties of the extraction. An archive stream reports \<open>end\<close>
  after its last entry: \<open>entries_before_end\<close>. \<open>registered cfg evs\<close> lists, for the
  entries among \<open>evs\<close> whose path ends in \<open>.mmdb\<close>, the file each is written to and
  its bytes, in order of arrival; \<open>target\<close> reads the same pair off a registered write.
\<close>

fun is_entry :: "pipe_event \<Rightarrow> bool" where
  "is_entry (Entry p b) = True"
| "is_entry ev = False"

fun entries_before_end :: "pipe_event list \<Rightarrow> bool" where
  "entries_before_end [] = True"
| "entries_before_end (End # evs) = list_all (\<lambda>ev. \<not> is_entry ev) evs"
| "entries_before_end (ev # evs) = entries_before_end evs"

fun registered :: "env \<Rightarrow> pipe_event list \<Rightarrow> (path \<times> nat list) list" where
  "registered cfg [] = []"
| "registered cfg (Entry p b # evs) =
     (if endsWith p ''.mmdb'' then (path_join [downloadPath cfg, basename p], b) # registered cfg evs
      else registered cfg evs)"
| "registered cfg (ev # evs) = registered cfg evs"

definition target :: "pwrite \<Rightarrow> path \<times> nat list" where
  "target p = (w_dst p, w_data p)"

text \<open>
  Invariants of the pipeline: a write has written nothing before it is opened and all
  its bytes once it is fulfilled; the file of every opened write exists; and the file
  of every opened write holds the bytes written so far.
\<close>

definition write_ok :: "pwrite \<Rightarrow> bool" where
  "write_ok p \<longleftrightarrow>
     w_written p \<le> length (w_data p)
     \<and> (\<not> w_opened p \<longrightarrow> w_written p = 0)
     \<and> (w_state p = Fulfilled \<longrightarrow> w_opened p \<and> w_written p = length (w_data p))"

definition progress_ok :: "pipeline \<Rightarrow> bool" where
  "progress_ok s \<longleftrightarrow> (\<forall>p\<in>set (fst s). write_ok p)"

definition dsts_exist :: "pipeline \<Rightarrow> bool" where
  "dsts_exist s \<longleftrightarrow> (\<forall>p\<in>set (fst s). w_opened p \<longrightarrow> files (snd s) (w_dst p) \<noteq> None)"

definition written_ok :: "pipeline \<Rightarrow> bool" where
  "written_ok s \<longleftrightarrow>
     (\<forall>i<length (fst s). w_opened (fst s ! i) \<longrightarrow>
        map_option bytes (files (snd s) (w_dst (fst s ! i)))
          = Some (take (w_written (fst s ! i)) (w_data (fst s ! i))))"

section \<open>The run\<close>

text \<open>Lines 108-134: the body of the loop over \<open>editionIds\<close>.\<close>

definition process_edition ::
  "env \<Rightarrow> string \<Rightarrow> world \<Rightarrow> ((error + unit) \<times> world) option" where
  "process_edition cfg editionId w =
     (let dbPath = path_join [downloadPath cfg, editionId @ ''.mmdb''] in
      case isOutdated cfg dbPath (link cfg editionId) w of
        None \<Rightarrow> None
      | Some (Inl e, w1) \<Rightarrow> Some (Inl e, w1)
      | Some (Inr isOutdatedStatus, w1) \<Rightarrow>
          if \<not> isOutdatedStatus then
            Some (Inr (), emit (ConsoleLog ('' > '' @ editionId @ '': Is up to date, skipping download'')) w1)
          else
            (case request cfg (link cfg editionId) no_options
                    (emit (ConsoleLog ('' > '' @ editionId @ '': Is either missing or outdated, downloading'')) w1) of
               None \<Rightarrow> None
             | Some (Inl e, w2) \<Rightarrow> Some (Inl e, w2)
             | Some (Inr resp, w2) \<Rightarrow>
                 (case extraction cfg resp w2 of
                    None \<Rightarrow> None
                  | Some (Inl e, w3) \<Rightarrow> Some (Inl e, w3)
                  | Some (Inr written, w3) \<Rightarrow> Some (Inr (), w3))))"

fun for_editions ::
  "env \<Rightarrow> string list \<Rightarrow> world \<Rightarrow> ((error + unit) \<times> world) option" where
  "for_editions cfg [] w = Some (Inr (), w)"
| "for_editions cfg (editionId # rest) w =
     (case process_edition cfg editionId w of
        None \<Rightarrow> None
      | Some (Inl e, w') \<Rightarrow> Some (Inl e, w')
      | Some (Inr u, w') \<Rightarrow> for_editions cfg rest w')"

text \<open>Lines 105-136.\<close>

definition main :: "env \<Rightarrow> string list \<Rightarrow> world \<Rightarrow> ((error + unit) \<times> world) option" where
  "main cfg ids w = for_editions cfg ids (emit (ConsoleLog ''Downloading maxmind databases...'') w)"

section \<open>The script\<close>

text \<open>
  What \<open>../utils\<close> hands to the script: \<open>getLicense()\<close> and \<open>getAccountId()\<close> return a
  string or \<open>undefined\<close>, or throw an error with a message (\<open>Inl\<close>);
  \<open>getSelectedDbs()\<close> returns an array of names.
\<close>

record host =
  getLicense :: "string + string option"
  getAccountId :: "string + string option"
  getSelectedDbs :: "string list"
  host_dirname :: path
  host_dateParse :: "string \<Rightarrow> int option"

text \<open>Lines 8-14 and 16-22: \<open>try { x = get() } catch (e) { console.error(...); console.error(e.message) }\<close>.\<close>

definition try_get :: "string \<Rightarrow> string + string option \<Rightarrow> world \<Rightarrow> string option \<times> world" where
  "try_get what r w =
     (case r of
        Inl msg \<Rightarrow> (None, emit (ConsoleError msg)
                           (emit (ConsoleError (''geolite2: Error retrieving Maxmind '' @ what)) w))
      | Inr v \<Rightarrow> (v, w))"

text \<open>Line 60: \<open>if (!fs.existsSync(downloadPath)) fs.mkdirSync(downloadPath)\<close>.\<close>

definition ensure_dir :: "path \<Rightarrow> world \<Rightarrow> world" where
  "ensure_dir p w = (if existsSync w p then w else w\<lparr>dirs := (dirs w)(p \<mapsto> clock w)\<rparr>)"

text \<open>
  Lines 138-146: the exit code for the outcome of \<open>main()\<close>. When the promise of
  \<open>main()\<close> stays pending and no event is left, neither \<open>then\<close> nor \<open>catch\<close> runs:
  the process ends by itself, with exit code 0. \<open>None\<close> is the run that goes on for
  ever.
\<close>

definition exit_with :: "((error + unit) \<times> world) option \<Rightarrow> (nat \<times> world) option" where
  "exit_with outcome =
     (case outcome of
        None \<Rightarrow> None
      | Some (Inr u, w) \<Rightarrow> Some (0, w)
      | Some (Inl Unsettled, w) \<Rightarrow> Some (0, w)
      | Some (Inl err, w) \<Rightarrow> Some (1, emit (ConsoleErrorObj err) w))"

text \<open>
  The whole script, to the exit code of the process. The message of lines 25-42 is
  represented by its first line.
\<close>

definition postinstall :: "host \<Rightarrow> world \<Rightarrow> (nat \<times> world) option" where
  "postinstall h w0 =
     (case try_get ''License Key'' (getLicense h) w0 of (lic, w1) \<Rightarrow>
      case try_get ''Account ID'' (getAccountId h) w1 of (acc, w2) \<Rightarrow>
        if \<not> truthy lic then
          Some (1, emit (ConsoleError ''Error: License Key is not configured.'') w2)
        else
          let cfg = \<lparr>accountId = acc, licenseKey = (case lic of Some k \<Rightarrow> k | None \<Rightarrow> []),
                     dirname = host_dirname h, dateParse = host_dateParse h\<rparr>;
              ids = editionIds (getSelectedDbs h)
          in exit_with (main cfg ids (ensure_dir (downloadPath cfg) w2)))"

section \<open>Concrete inputs\<close>

text \<open>Configurations, replies and worlds on which the properties below are exercised.\<close>

definition env_account :: env where
  "env_account = \<lparr>accountId = Some ''42'', licenseKey = ''k3y'', dirname = ''/pkg/scripts'',
     dateParse = (\<lambda>s. if s = ''Thu, 01 Jan 1970 00:00:05 GMT'' then Some 5000 else None)\<rparr>"

definition env_legacy :: env where
  "env_legacy = env_account\<lparr>accountId := None\<rparr>"

definition ok_response :: response where
  "ok_response = \<lparr>statusCode = 200, statusMessage = ''OK'', headers = Map.empty, body = []\<rparr>"

definition redirect_to :: "url \<Rightarrow> response" where
  "redirect_to l = \<lparr>statusCode = 302, statusMessage = ''Found'', headers = [''location'' \<mapsto> l], body = []\<rparr>"

definition no_content :: response where
  "no_content = \<lparr>statusCode = 204, statusMessage = ''No Content'', headers = Map.empty, body = []\<rparr>"

definition dated_response :: response where
  "dated_response = ok_response\<lparr>headers := [''last-modified'' \<mapsto> ''Thu, 01 Jan 1970 00:00:05 GMT'']\<rparr>"

definition garbled_response :: response where
  "garbled_response = ok_response\<lparr>headers := [''last-modified'' \<mapsto> ''yesterday'']\<rparr>"

definition chain_net :: "effect list \<Rightarrow> url \<Rightarrow> string option \<Rightarrow> string option \<Rightarrow> reply" where
  "chain_net t u m a =
     (if u = ''https://a.example/db'' then Reply (redirect_to ''https://b.example/db'')
      else if u = ''https://b.example/db'' then Reply (redirect_to ''https://c.example/db'')
      else if u = ''https://c.example/db'' then Reply ok_response
      else if u = ''https://d.example/db'' then Reply no_content
      else if u = ''https://e.example/db'' then Reply dated_response
      else if u = ''https://f.example/db'' then Reply garbled_response
      else NetError ''ENOTFOUND'')"

definition chain_world :: world where
  "chain_world = \<lparr>files = [''/pkg/dbs/GeoLite2-City.mmdb'' \<mapsto> \<lparr>bytes = [], mtimeMs = 9999 / 2\<rparr>],
     dirs = [''/pkg/dbs'' \<mapsto> 1], net = chain_net, clock = 6000, trace = []\<rparr>"

definition not_found :: response where
  "not_found = \<lparr>statusCode = 404, statusMessage = ''Not Found'', headers = Map.empty, body = []\<rparr>"

definition city_archive :: "pipe_event list" where
  "city_archive =
     [Entry ''GeoLite2-City_20240101/COPYRIGHT.txt'' [67],
      Entry ''GeoLite2-City_20240101/GeoLite2-City.mmdb'' [1, 2, 3],
      End,
      Finish 0]"

definition mirror_net :: "effect list \<Rightarrow> url \<Rightarrow> string option \<Rightarrow> string option \<Rightarrow> reply" where
  "mirror_net t u m a =
     (if m = Some ''HEAD'' then Reply garbled_response
      else if u = link env_account ''GeoLite2-Country'' then Reply not_found
      else Reply (ok_response\<lparr>body := city_archive\<rparr>))"

definition mirror_world :: world where
  "mirror_world = \<lparr>files = [''/pkg/dbs/GeoLite2-ASN.mmdb'' \<mapsto> \<lparr>bytes = [9], mtimeMs = 1\<rparr>],
     dirs = [''/pkg/dbs'' \<mapsto> 1], net = mirror_net, clock = 6000, trace = []\<rparr>"

definition host_no_account :: host where
  "host_no_account = \<lparr>getLicense = Inr (Some ''k3y''), getAccountId = Inl ''package.json not found'',
     getSelectedDbs = [''ASN''], host_dirname = ''/pkg/scripts'', host_dateParse = (\<lambda>s. None)\<rparr>"

definition host_no_license :: host where
  "host_no_license = \<lparr>getLicense = Inr None, getAccountId = Inr (Some ''42''),
     getSelectedDbs = [''City''], host_dirname = ''/pkg/scripts'', host_dateParse = (\<lambda>s. None)\<rparr>"



definition two_db_archive :: "pipe_event list" where
  "two_db_archive =
     [Entry ''GeoLite2_20240101/GeoLite2-ASN.mmdb'' [1, 2, 3, 4, 5],
      Entry ''GeoLite2_20240101/README.txt'' [7],
      Entry ''GeoLite2_20240101/GeoLite2-Country.mmdb'' [8],
      End,
      Finish 1,
      Finish 0]"

definition two_db_writes :: "pwrite list" where
  "two_db_writes =
     [\<lparr>w_dst = ''/pkg/dbs/GeoLite2-ASN.mmdb'', w_data = [1, 2, 3, 4, 5], w_opened = True,
        w_written = 5, w_state = Fulfilled\<rparr>,
      \<lparr>w_dst = ''/pkg/dbs/GeoLite2-Country.mmdb'', w_data = [8], w_opened = True,
        w_written = 1, w_state = Fulfilled\<rparr>]"

definition two_db_done_world :: world where
  "two_db_done_world = mirror_world
     \<lparr>files := (files mirror_world)
         (''/pkg/dbs/GeoLite2-Country.mmdb'' \<mapsto> \<lparr>bytes = [8], mtimeMs = 6000\<rparr>,
          ''/pkg/dbs/GeoLite2-ASN.mmdb'' \<mapsto> \<lparr>bytes = [1, 2, 3, 4, 5], mtimeMs = 6000\<rparr>),
      trace := [ConsoleLog ''writing /pkg/dbs/GeoLite2-ASN.mmdb ...'',
                ConsoleLog ''writing /pkg/dbs/GeoLite2-Country.mmdb ...'']\<rparr>"

definition clash_archive :: "pipe_event list" where
  "clash_archive =
     [Entry ''a/GeoLite2-City.mmdb'' [1, 2, 3, 4, 5],
      Entry ''b/GeoLite2-City.mmdb'' [8],
      End,
      Opened 0,
      Opened 1,
      Finish 0,
      Finish 1]"

definition clash_writes :: "pwrite list" where
  "clash_writes =
     [\<lparr>w_dst = ''/pkg/dbs/GeoLite2-City.mmdb'', w_data = [1, 2, 3, 4, 5], w_opened = True,
        w_written = 5, w_state = Fulfilled\<rparr>,
      \<lparr>w_dst = ''/pkg/dbs/GeoLite2-City.mmdb'', w_data = [8], w_opened = True,
        w_written = 1, w_state = Fulfilled\<rparr>]"

definition clash_done_world :: world where
  "clash_done_world = mirror_world
     \<lparr>files := (files mirror_world)
         (''/pkg/dbs/GeoLite2-City.mmdb'' \<mapsto> \<lparr>bytes = [8, 2, 3, 4, 5], mtimeMs = 6000\<rparr>),
      trace := [ConsoleLog ''writing /pkg/dbs/GeoLite2-City.mmdb ...'',
                ConsoleLog ''writing /pkg/dbs/GeoLite2-City.mmdb ...'']\<rparr>"











section \<open>Properties\<close>

subsection \<open>The request layer\<close>

lemma send_world:
  "send cfg u opts w = (rep, w') \<Longrightarrow>
     w' = emit (HttpRequest u (opt_method opts) (request_auth cfg opts)) w"
  by (auto simp: send_def)

lemma emit_fields [simp]:
  "files (emit e w) = files w" "dirs (emit e w) = dirs w" "net (emit e w) = net w"
  "clock (emit e w) = clock w" "trace (emit e w) = trace w @ [e]"
  by (simp_all add: emit_def)

lemma request_hops:
  "hops cfg n u opts w = Some (u', opts', w') \<Longrightarrow> request cfg u opts w = request cfg u' opts' w'"
proof (induction n arbitrary: u opts w)
  case 0
  then show ?case by simp
next
  case (Suc n)
  obtain rep w1 where s: "send cfg u opts w = (rep, w1)" by (cases "send cfg u opts w")
  with Suc.prems obtain r where r: "rep = Reply r" "is_redirect r"
    and h: "hops cfg n (location r) (opts\<lparr>opt_auth := Some None\<rparr>) w1 = Some (u', opts', w')"
    by (cases rep) (auto split: if_splits)
  have "request cfg u opts w = request cfg (location r) (opts\<lparr>opt_auth := Some None\<rparr>) w1"
    using s r by (subst request.simps) simp
  also have "\<dots> = request cfg u' opts' w'" using h by (rule Suc.IH)
  finally show ?case .
qed

lemma hops_options:
  "hops cfg n u opts w = Some (u', opts', w') \<Longrightarrow>
     opt_method opts' = opt_method opts \<and> (0 < n \<longrightarrow> opt_auth opts' = Some None)"
proof (induction n arbitrary: u opts w)
  case 0
  then show ?case by simp
next
  case (Suc n)
  obtain rep w1 where s: "send cfg u opts w = (rep, w1)" by (cases "send cfg u opts w")
  with Suc.prems obtain r where r: "rep = Reply r" "is_redirect r"
    and h: "hops cfg n (location r) (opts\<lparr>opt_auth := Some None\<rparr>) w1 = Some (u', opts', w')"
    by (cases rep) (auto split: if_splits)
  from Suc.IH [OF h] show ?case by (cases n) (use h in auto)
qed

lemma hops_trace_length:
  "hops cfg n u opts w = Some (u', opts', w') \<Longrightarrow> length (trace w') = length (trace w) + n"
proof (induction n arbitrary: u opts w)
  case 0
  then show ?case by simp
next
  case (Suc n)
  obtain rep w1 where s: "send cfg u opts w = (rep, w1)" by (cases "send cfg u opts w")
  with Suc.prems obtain r where r: "rep = Reply r" "is_redirect r"
    and h: "hops cfg n (location r) (opts\<lparr>opt_auth := Some None\<rparr>) w1 = Some (u', opts', w')"
    by (cases rep) (auto split: if_splits)
  from Suc.IH [OF h] send_world [OF s] show ?case by simp
qed

lemma request_world:
  assumes "request cfg u opts w = Some y"
  shows "request_inv cfg u opts w y"
proof (rule request.raw_induct [where P = request_inv, OF _ assms], goal_cases)
  case (1 f cfg u opts w y)
  obtain rep w1 where s: "send cfg u opts w = (rep, w1)" by (cases "send cfg u opts w")
  note w1 = send_world [OF s]
  show ?case
  proof (cases rep)
    case (NetError e)
    with 1(2) s w1 show ?thesis by (auto simp: request_inv_def)
  next
    case (Reply r)
    show ?thesis
    proof (cases "is_redirect r")
      case True
      with 1(2) s Reply have "f cfg (location r) (opts\<lparr>opt_auth := Some None\<rparr>) w1 = Some y"
        by simp
      from 1(1) [OF this] obtain rest where
        a: "files (snd y) = files w1" "dirs (snd y) = dirs w1" "net (snd y) = net w1"
           "clock (snd y) = clock w1"
        and t: "trace (snd y) = trace w1 @ HttpRequest (location r) (opt_method (opts\<lparr>opt_auth := Some None\<rparr>))
                   (request_auth cfg (opts\<lparr>opt_auth := Some None\<rparr>)) # rest"
        unfolding request_inv_def by blast
      from t w1 have "trace (snd y) = trace w @ HttpRequest u (opt_method opts) (request_auth cfg opts)
           # (HttpRequest (location r) (opt_method (opts\<lparr>opt_auth := Some None\<rparr>))
                   (request_auth cfg (opts\<lparr>opt_auth := Some None\<rparr>)) # rest)"
        by simp
      then have "\<exists>rest. trace (snd y) = trace w @ HttpRequest u (opt_method opts) (request_auth cfg opts) # rest"
        by blast
      with a w1 show ?thesis by (simp add: request_inv_def)
    next
      case False
      with 1(2) s Reply w1 show ?thesis by (auto simp: request_inv_def split: if_splits)
    qed
  qed
qed


text \<open>
  Claim C1, as the code has it. \<open>request\<close> does not stop after one hop: after any
  number \<open>n\<close> of consecutive redirects it goes on as the request to the latest
  \<open>location\<close>, with the method it was given and, from the first hop on, with \<open>auth\<close>
  cleared, having issued one request per hop.
\<close>

theorem request_follows_every_redirect:
  "hops cfg n u opts w = Some (u', opts', w') \<Longrightarrow>
     request cfg u opts w = request cfg u' opts' w'
     \<and> opt_method opts' = opt_method opts
     \<and> (0 < n \<longrightarrow> opt_auth opts' = Some None \<and> request_auth cfg opts' = None)
     \<and> length (trace w') = length (trace w) + n"
  using request_hops [of cfg n u opts w u' opts' w'] hops_options [of cfg n u opts w u' opts' w']
    hops_trace_length [of cfg n u opts w u' opts' w']
  by (simp add: request_auth_def)

theorem request_follows_every_redirect_witness:
  "hops env_account (Suc (Suc 0)) ''https://a.example/db'' no_options chain_world
     = Some (''https://c.example/db'', no_options\<lparr>opt_auth := Some None\<rparr>,
             chain_world\<lparr>trace := [HttpRequest ''https://a.example/db'' None (Some ''42:k3y''),
                                    HttpRequest ''https://b.example/db'' None None]\<rparr>)
   \<and> request env_account ''https://a.example/db'' no_options chain_world
     = request env_account ''https://c.example/db'' (no_options\<lparr>opt_auth := Some None\<rparr>)
         (chain_world\<lparr>trace := [HttpRequest ''https://a.example/db'' None (Some ''42:k3y''),
                                HttpRequest ''https://b.example/db'' None None]\<rparr>)"
proof -
  have h: "hops env_account (Suc (Suc 0)) ''https://a.example/db'' no_options chain_world
     = Some (''https://c.example/db'', no_options\<lparr>opt_auth := Some None\<rparr>,
             chain_world\<lparr>trace := [HttpRequest ''https://a.example/db'' None (Some ''42:k3y''),
                                    HttpRequest ''https://b.example/db'' None None]\<rparr>)"
    by (simp add: send_def emit_def chain_world_def chain_net_def redirect_to_def is_redirect_def
        truthy_def location_def request_auth_def default_auth_def env_account_def no_options_def)
  from request_follows_every_redirect [OF h] h show ?thesis by simp
qed

text \<open>
  Claim C1 as written fails: with A redirecting to B and B redirecting to C, the second
  redirect is followed, a third request goes to C, and the response of C is returned;
  the 302 of B is not the final status.
\<close>

theorem request_second_redirect_followed:
  "request env_account ''https://a.example/db'' no_options chain_world
     = Some (Inr ok_response,
             chain_world\<lparr>trace := [HttpRequest ''https://a.example/db'' None (Some ''42:k3y''),
                                    HttpRequest ''https://b.example/db'' None None,
                                    HttpRequest ''https://c.example/db'' None None]\<rparr>)"
  by (simp add: request.simps send_def emit_def chain_world_def chain_net_def redirect_to_def
      is_redirect_def truthy_def location_def request_auth_def default_auth_def env_account_def
      no_options_def ok_response_def)

text \<open>
  Claim C2, as the code has it. Once the redirects are resolved, the response that is not
  a redirect decides: \<open>request\<close> returns it exactly when its status is 200, and
  otherwise fails with \<open>RequestFailed\<close> carrying the URL of that last request, the status
  code and the status message.
\<close>

theorem request_final_status:
  assumes "hops cfg n u opts w = Some (u', opts', w')"
    and "send cfg u' opts' w' = (Reply r, w'')"
    and "\<not> is_redirect r"
  shows "request cfg u opts w =
     Some (if statusCode r = 200 then Inr r
           else Inl (RequestFailed u' (statusCode r) (statusMessage r)), w'')"
proof -
  from assms(1) have "request cfg u opts w = request cfg u' opts' w'" by (rule request_hops)
  also from assms(2,3) have "\<dots> = Some (if statusCode r = 200 then Inr r
           else Inl (RequestFailed u' (statusCode r) (statusMessage r)), w'')"
    by (subst request.simps) simp
  finally show ?thesis .
qed

theorem request_final_status_witness:
  "hops env_account (Suc 0) ''https://b.example/db'' head_options chain_world
     = Some (''https://c.example/db'', head_options\<lparr>opt_auth := Some None\<rparr>,
             chain_world\<lparr>trace := [HttpRequest ''https://b.example/db'' (Some ''HEAD'') (Some ''42:k3y'')]\<rparr>)
   \<and> send env_account ''https://c.example/db'' (head_options\<lparr>opt_auth := Some None\<rparr>)
         (chain_world\<lparr>trace := [HttpRequest ''https://b.example/db'' (Some ''HEAD'') (Some ''42:k3y'')]\<rparr>)
     = (Reply ok_response,
        chain_world\<lparr>trace := [HttpRequest ''https://b.example/db'' (Some ''HEAD'') (Some ''42:k3y''),
                               HttpRequest ''https://c.example/db'' (Some ''HEAD'') None]\<rparr>)
   \<and> \<not> is_redirect ok_response
   \<and> request env_account ''https://b.example/db'' head_options chain_world
     = Some (Inr ok_response,
        chain_world\<lparr>trace := [HttpRequest ''https://b.example/db'' (Some ''HEAD'') (Some ''42:k3y''),
                               HttpRequest ''https://c.example/db'' (Some ''HEAD'') None]\<rparr>)"
proof -
  have h: "hops env_account (Suc 0) ''https://b.example/db'' head_options chain_world
     = Some (''https://c.example/db'', head_options\<lparr>opt_auth := Some None\<rparr>,
             chain_world\<lparr>trace := [HttpRequest ''https://b.example/db'' (Some ''HEAD'') (Some ''42:k3y'')]\<rparr>)"
    by (simp add: send_def emit_def chain_world_def chain_net_def redirect_to_def is_redirect_def
        truthy_def location_def request_auth_def default_auth_def env_account_def head_options_def)
  have s: "send env_account ''https://c.example/db'' (head_options\<lparr>opt_auth := Some None\<rparr>)
         (chain_world\<lparr>trace := [HttpRequest ''https://b.example/db'' (Some ''HEAD'') (Some ''42:k3y'')]\<rparr>)
     = (Reply ok_response,
        chain_world\<lparr>trace := [HttpRequest ''https://b.example/db'' (Some ''HEAD'') (Some ''42:k3y''),
                               HttpRequest ''https://c.example/db'' (Some ''HEAD'') None]\<rparr>)"
    by (simp add: send_def emit_def chain_world_def chain_net_def request_auth_def head_options_def)
  have r: "\<not> is_redirect ok_response"
    by (simp add: is_redirect_def ok_response_def)
  from request_final_status [OF h s r] h s r show ?thesis
    by (simp add: ok_response_def)
qed

text \<open>
  Claim C2 as written fails: a response with status 204, which is in the 2xx range, makes
  \<open>request\<close> fail with \<open>RequestFailed\<close>.
\<close>

theorem request_no_content_fails:
  "statusCode no_content = 204
   \<and> request env_account ''https://d.example/db'' no_options chain_world
     = Some (Inl (RequestFailed ''https://d.example/db'' 204 ''No Content''),
             chain_world\<lparr>trace := [HttpRequest ''https://d.example/db'' None (Some ''42:k3y'')]\<rparr>)"
  by (simp add: request.simps send_def emit_def chain_world_def chain_net_def no_content_def
      is_redirect_def truthy_def location_def request_auth_def default_auth_def env_account_def
      no_options_def)

text \<open>The defining equations needed to run the model on a concrete input.\<close>

lemmas run_defs =
  main_def process_edition_def isOutdated_def downloadPath_def path_join_def normalize_def
  emit_def link_def request.simps send_def request_auth_def default_auth_def is_redirect_def
  truthy_def Date_parse_def js_less_def extraction_def on_entry_def on_finish_def
  on_write_error_def on_opened_def on_wrote_def fs_open_def fs_write_def write_at_def
  promise_all_def endsWith_def basename_def no_options_def head_options_def existsSync_def
  statSync_mtimeMs_def

lemma downloadPath_env_account: "downloadPath env_account = ''/pkg/dbs''"
  by (simp add: downloadPath_def path_join_def normalize_def env_account_def)

lemma dbPath_ASN: "path_join [downloadPath env_account, ''GeoLite2-ASN.mmdb''] = ''/pkg/dbs/GeoLite2-ASN.mmdb''"
  by (simp add: downloadPath_env_account path_join_def normalize_def)

subsection \<open>The staleness check\<close>

lemma request_files:
  "request cfg u opts w = Some (res, w') \<Longrightarrow> files w' = files w"
  using request_world [of cfg u opts w "(res, w')"] by (simp add: request_inv_def)

lemma request_dirs:
  "request cfg u opts w = Some (res, w') \<Longrightarrow> dirs w' = dirs w"
  using request_world [of cfg u opts w "(res, w')"] by (simp add: request_inv_def)

lemma request_net:
  "request cfg u opts w = Some (res, w') \<Longrightarrow> net w' = net w"
  using request_world [of cfg u opts w "(res, w')"] by (simp add: request_inv_def)

lemma request_trace:
  "request cfg u opts w = Some (res, w') \<Longrightarrow>
     \<exists>rest. trace w' = trace w @ HttpRequest u (opt_method opts) (request_auth cfg opts) # rest"
  using request_world [of cfg u opts w "(res, w')"] by (simp add: request_inv_def)

lemma isOutdated_stat:
  assumes m: "statSync_mtimeMs w p = Some m"
    and r: "request cfg u head_options w = Some (Inr r, w')"
  shows "isOutdated cfg p u w
         = Some (Inr (js_less m (Date_parse cfg (headers r ''last-modified''))), w')"
proof -
  from m have e: "existsSync w p"
    by (auto simp: statSync_mtimeMs_def existsSync_def split: option.splits)
  from request_files [OF r] request_dirs [OF r]
  have "statSync_mtimeMs w' p = statSync_mtimeMs w p"
    by (simp add: statSync_mtimeMs_def split: option.splits)
  with m have "statSync_mtimeMs w' p = Some m" by simp
  with e r show ?thesis by (simp add: isOutdated_def)
qed

lemma isOutdated_parsed:
  assumes f: "files w p = Some f"
    and r: "request cfg u head_options w = Some (Inr r, w')"
  shows "isOutdated cfg p u w
         = Some (Inr (js_less (mtimeMs f) (Date_parse cfg (headers r ''last-modified''))), w')"
proof -
  from f have "statSync_mtimeMs w p = Some (mtimeMs f)" by (simp add: statSync_mtimeMs_def)
  from isOutdated_stat [OF this r] show ?thesis .
qed

lemma isOutdated_trace:
  assumes f: "existsSync w p" and i: "isOutdated cfg p u w = Some (res, w')"
  shows "\<exists>rest. trace w' = trace w @ HttpRequest u (Some ''HEAD'') (default_auth cfg) # rest"
proof -
  from f i obtain res0 where y: "request cfg u head_options w = Some (res0, w')"
    by (auto simp: isOutdated_def split: option.splits sum.splits prod.splits)
  from request_trace [OF y] show ?thesis by (simp add: head_options_def request_auth_def)
qed

lemma request_dated:
  "request env_account ''https://e.example/db'' head_options chain_world
     = Some (Inr dated_response,
             chain_world\<lparr>trace := [HttpRequest ''https://e.example/db'' (Some ''HEAD'') (Some ''42:k3y'')]\<rparr>)"
  by (simp add: request.simps send_def emit_def chain_world_def chain_net_def dated_response_def
      is_redirect_def truthy_def request_auth_def default_auth_def env_account_def
      head_options_def ok_response_def)

text \<open>
  Claim C4. When nothing exists at the local path, \<open>isOutdated\<close> returns true and
  leaves the world as it was: no request is issued. When something exists there, the
  first thing \<open>isOutdated\<close> does is a \<open>HEAD\<close> request to the URL, and when that
  request returns a response whose \<open>Last-Modified\<close> header parses to the time \<open>t\<close>,
  the result is true if and only if the modification time that \<open>fs.statSync\<close> reports
  for the local path is strictly less than \<open>t\<close>; with equal times the file is not
  outdated.
\<close>

theorem isOutdated_compares_mtime:
  "(\<not> existsSync wa pa \<longrightarrow> isOutdated cfg pa ua wa = Some (Inr True, wa))
   \<and> (statSync_mtimeMs wb pb = Some m \<and> request cfg ub head_options wb = Some (Inr r, w')
        \<and> Date_parse cfg (headers r ''last-modified'') = Some t \<longrightarrow>
        isOutdated cfg pb ub wb = Some (Inr (m < of_int t), w'))
   \<and> (existsSync wc pc \<and> isOutdated cfg pc uc wc = Some (res, w'') \<longrightarrow>
        (\<exists>rest. trace w'' = trace wc @ HttpRequest uc (Some ''HEAD'') (default_auth cfg) # rest))"
proof (intro conjI impI)
  assume "\<not> existsSync wa pa"
  then show "isOutdated cfg pa ua wa = Some (Inr True, wa)" by (simp add: isOutdated_def)
next
  assume a: "statSync_mtimeMs wb pb = Some m \<and> request cfg ub head_options wb = Some (Inr r, w')
        \<and> Date_parse cfg (headers r ''last-modified'') = Some t"
  then have "isOutdated cfg pb ub wb
         = Some (Inr (js_less m (Date_parse cfg (headers r ''last-modified''))), w')"
    by (simp add: isOutdated_stat)
  with a show "isOutdated cfg pb ub wb = Some (Inr (m < of_int t), w')"
    by (simp add: js_less_def)
next
  assume "existsSync wc pc \<and> isOutdated cfg pc uc wc = Some (res, w'')"
  then show "\<exists>rest. trace w'' = trace wc @ HttpRequest uc (Some ''HEAD'') (default_auth cfg) # rest"
    by (blast intro: isOutdated_trace)
qed

theorem isOutdated_compares_mtime_witness:
  "\<not> existsSync chain_world ''/pkg/dbs/GeoLite2-ASN.mmdb''
   \<and> isOutdated env_account ''/pkg/dbs/GeoLite2-ASN.mmdb'' ''https://e.example/db'' chain_world
       = Some (Inr True, chain_world)
   \<and> statSync_mtimeMs chain_world ''/pkg/dbs/GeoLite2-City.mmdb'' = Some (9999 / 2)
   \<and> existsSync chain_world ''/pkg/dbs/GeoLite2-City.mmdb''
   \<and> Date_parse env_account (headers dated_response ''last-modified'') = Some 5000
   \<and> isOutdated env_account ''/pkg/dbs/GeoLite2-City.mmdb'' ''https://e.example/db'' chain_world
       = Some (Inr True,
               chain_world\<lparr>trace := [HttpRequest ''https://e.example/db'' (Some ''HEAD'') (Some ''42:k3y'')]\<rparr>)
   \<and> statSync_mtimeMs chain_world ''/pkg/dbs'' = Some 1
   \<and> isOutdated env_account ''/pkg/dbs'' ''https://e.example/db'' chain_world
       = Some (Inr True,
               chain_world\<lparr>trace := [HttpRequest ''https://e.example/db'' (Some ''HEAD'') (Some ''42:k3y'')]\<rparr>)"
proof -
  have a: "\<not> existsSync chain_world ''/pkg/dbs/GeoLite2-ASN.mmdb''"
    by (simp add: chain_world_def existsSync_def)
  have b: "statSync_mtimeMs chain_world ''/pkg/dbs/GeoLite2-City.mmdb'' = Some (9999 / 2)"
    and b': "statSync_mtimeMs chain_world ''/pkg/dbs'' = Some 1"
    and e: "existsSync chain_world ''/pkg/dbs/GeoLite2-City.mmdb''"
    by (simp_all add: chain_world_def statSync_mtimeMs_def existsSync_def)
  have c: "Date_parse env_account (headers dated_response ''last-modified'') = Some 5000"
    by (simp add: Date_parse_def env_account_def dated_response_def)
  note t = isOutdated_compares_mtime [of chain_world "''/pkg/dbs/GeoLite2-ASN.mmdb''" env_account
      "''https://e.example/db''" chain_world "''/pkg/dbs/GeoLite2-City.mmdb''"
      "9999 / 2" "''https://e.example/db''" dated_response
      "chain_world\<lparr>trace := [HttpRequest ''https://e.example/db'' (Some ''HEAD'') (Some ''42:k3y'')]\<rparr>"
      5000 chain_world "''/pkg/dbs/GeoLite2-City.mmdb''" "''https://e.example/db''" "Inr True"
      "chain_world\<lparr>trace := [HttpRequest ''https://e.example/db'' (Some ''HEAD'') (Some ''42:k3y'')]\<rparr>"]
  note t' = isOutdated_compares_mtime [of chain_world "''/pkg/dbs/GeoLite2-ASN.mmdb''" env_account
      "''https://e.example/db''" chain_world "''/pkg/dbs''"
      1 "''https://e.example/db''" dated_response
      "chain_world\<lparr>trace := [HttpRequest ''https://e.example/db'' (Some ''HEAD'') (Some ''42:k3y'')]\<rparr>"
      5000]
  from t t' a b b' e c request_dated show ?thesis by simp
qed

text \<open>
  Claim C9. When the local file exists and the \<open>HEAD\<close> request returns a response
  that has no \<open>Last-Modified\<close> header, or one that \<open>Date.parse\<close> does not accept, the
  parsed time is \<open>NaN\<close>, \<open>isOutdated\<close> returns false, and the edition is reported as up
  to date and skipped: no error is raised and no download is made.
\<close>

theorem isOutdated_without_remote_date:
  assumes f: "files w (path_join [downloadPath cfg, e @ ''.mmdb'']) = Some f"
    and r: "request cfg (link cfg e) head_options w = Some (Inr r, w')"
    and h: "headers r ''last-modified'' = None
            \<or> (\<exists>s. headers r ''last-modified'' = Some s \<and> dateParse cfg s = None)"
  shows "Date_parse cfg (headers r ''last-modified'') = None
     \<and> isOutdated cfg (path_join [downloadPath cfg, e @ ''.mmdb'']) (link cfg e) w = Some (Inr False, w')
     \<and> process_edition cfg e w
         = Some (Inr (), emit (ConsoleLog ('' > '' @ e @ '': Is up to date, skipping download'')) w')"
proof -
  from h have d: "Date_parse cfg (headers r ''last-modified'') = None"
    by (auto simp: Date_parse_def)
  from isOutdated_parsed [OF f r] d
  have i: "isOutdated cfg (path_join [downloadPath cfg, e @ ''.mmdb'']) (link cfg e) w = Some (Inr False, w')"
    by (simp add: js_less_def)
  from i have "process_edition cfg e w
         = Some (Inr (), emit (ConsoleLog ('' > '' @ e @ '': Is up to date, skipping download'')) w')"
    by (simp add: process_edition_def)
  with d i show ?thesis by simp
qed

theorem isOutdated_without_remote_date_witness:
  "files mirror_world (path_join [downloadPath env_account, ''GeoLite2-ASN'' @ ''.mmdb''])
     = Some \<lparr>bytes = [9], mtimeMs = 1\<rparr>
   \<and> request env_account (link env_account ''GeoLite2-ASN'') head_options mirror_world
     = Some (Inr garbled_response,
             emit (HttpRequest (link env_account ''GeoLite2-ASN'') (Some ''HEAD'') (Some ''42:k3y'')) mirror_world)
   \<and> headers garbled_response ''last-modified'' = Some ''yesterday''
   \<and> dateParse env_account ''yesterday'' = None
   \<and> process_edition env_account ''GeoLite2-ASN'' mirror_world
     = Some (Inr (), emit (ConsoleLog '' > GeoLite2-ASN: Is up to date, skipping download'')
              (emit (HttpRequest (link env_account ''GeoLite2-ASN'') (Some ''HEAD'') (Some ''42:k3y'')) mirror_world))"
proof -
  have f: "files mirror_world (path_join [downloadPath env_account, ''GeoLite2-ASN'' @ ''.mmdb''])
     = Some \<lparr>bytes = [9], mtimeMs = 1\<rparr>"
    by (simp add: dbPath_ASN mirror_world_def)
  have r: "request env_account (link env_account ''GeoLite2-ASN'') head_options mirror_world
     = Some (Inr garbled_response,
             emit (HttpRequest (link env_account ''GeoLite2-ASN'') (Some ''HEAD'') (Some ''42:k3y'')) mirror_world)"
    by (simp add: request.simps send_def mirror_world_def mirror_net_def garbled_response_def
        is_redirect_def truthy_def request_auth_def default_auth_def env_account_def
        head_options_def ok_response_def emit_def)
  have h: "headers garbled_response ''last-modified'' = Some ''yesterday''"
    by (simp add: garbled_response_def)
  have d: "dateParse env_account ''yesterday'' = None"
    by (simp add: env_account_def)
  from h d have "headers garbled_response ''last-modified'' = None
            \<or> (\<exists>s. headers garbled_response ''last-modified'' = Some s \<and> dateParse env_account s = None)"
    by simp
  from isOutdated_without_remote_date [OF f r this] f r h d show ?thesis by simp
qed

subsection \<open>URL construction\<close>

text \<open>
  Claim C5. The URL is built from the edition, from whether an account id is there, and
  from the license key, and from nothing else. With an account id \<open>a\<close> the URL is
  \<open>https://download.maxmind.com/geoip/databases/<editionId>/download?suffix=tar.gz\<close> and a
  request that does not set \<open>auth\<close> itself carries the basic auth \<open>a:licenseKey\<close>;
  without one the URL is
  \<open>https://download.maxmind.com/app/geoip_download?edition_id=<editionId>&license_key=<licenseKey>&suffix=tar.gz\<close>
  and there is no auth. Two configurations that agree on the presence of the account id
  and on the license key give the same URL, and the same auth when they agree on the
  account id. Presence is the test of the code, \<open>accountId ? ... : ...\<close>: an account id
  that is the empty string counts as absent.
\<close>

theorem link_url_construction:
  "(accountId ca = Some a \<and> a \<noteq> [] \<longrightarrow>
      link ca e = ''https://download.maxmind.com/geoip/databases/'' @ e @ ''/download?suffix=tar.gz''
      \<and> (opt_auth oa = None \<longrightarrow> request_auth ca oa = Some (a @ '':'' @ licenseKey ca)))
   \<and> (\<not> truthy (accountId cb) \<longrightarrow>
      link cb e = ''https://download.maxmind.com/app/geoip_download?edition_id='' @ e
                  @ ''&license_key='' @ licenseKey cb @ ''&suffix=tar.gz''
      \<and> (opt_auth ob = None \<longrightarrow> request_auth cb ob = None))
   \<and> (truthy (accountId cc) = truthy (accountId cd) \<and> licenseKey cc = licenseKey cd
        \<longrightarrow> link cc e = link cd e)
   \<and> (accountId cc = accountId cd \<and> licenseKey cc = licenseKey cd
        \<longrightarrow> default_auth cc = default_auth cd)"
  by (auto simp: link_def truthy_def request_auth_def default_auth_def split: option.splits)

theorem link_url_construction_witness:
  "accountId env_account = Some ''42'' \<and> ''42'' \<noteq> [] \<and> opt_auth no_options = None
   \<and> \<not> truthy (accountId env_legacy) \<and> opt_auth head_options = None
   \<and> truthy (accountId env_account) = truthy (accountId (env_account\<lparr>accountId := Some ''7''\<rparr>))
   \<and> link env_account ''GeoLite2-City''
       = ''https://download.maxmind.com/geoip/databases/GeoLite2-City/download?suffix=tar.gz''
   \<and> request_auth env_account no_options = Some ''42:k3y''
   \<and> link env_legacy ''GeoLite2-City''
       = ''https://download.maxmind.com/app/geoip_download?edition_id=GeoLite2-City&license_key=k3y&suffix=tar.gz''
   \<and> request_auth env_legacy head_options = None
   \<and> link env_account ''GeoLite2-City'' = link (env_account\<lparr>accountId := Some ''7''\<rparr>) ''GeoLite2-City''"
  using link_url_construction [of env_account "''42''" "''GeoLite2-City''" no_options env_legacy head_options
      env_account "env_account\<lparr>accountId := Some ''7''\<rparr>"]
  by (simp add: env_account_def env_legacy_def no_options_def head_options_def truthy_def
      link_def request_auth_def default_auth_def)

subsection \<open>Selected editions\<close>



subsection \<open>Extraction\<close>

lemma registered_append: "registered cfg (xs @ ys) = registered cfg xs @ registered cfg ys"
  by (induction cfg xs rule: registered.induct) simp_all

lemma registered_no_entry: "list_all (\<lambda>ev. \<not> is_entry ev) evs \<Longrightarrow> registered cfg evs = []"
  by (induction cfg evs rule: registered.induct) simp_all

lemma entries_before_end_split:
  "entries_before_end (pre @ End # post) \<Longrightarrow> End \<notin> set pre \<Longrightarrow> list_all (\<lambda>ev. \<not> is_entry ev) post"
  by (induction pre rule: entries_before_end.induct) simp_all

lemma registered_set:
  "(q, b) \<in> set (registered cfg evs) \<longleftrightarrow>
     (\<exists>p. Entry p b \<in> set evs \<and> endsWith p ''.mmdb'' \<and> q = path_join [downloadPath cfg, basename p])"
  by (induction cfg evs rule: registered.induct) auto

lemma in_set_update: "p \<in> set (ps[j := q]) \<Longrightarrow> p = q \<or> p \<in> set ps"
  using set_update_subset_insert [of ps j q] by auto

lemma target_update:
  "i < length ps \<Longrightarrow> target q = target (ps ! i) \<Longrightarrow> map target (ps[i := q]) = map target ps"
  by (simp add: list_eq_iff_nth_eq nth_list_update)

lemma on_opened_targets: "map target (fst (on_opened i s)) = map target (fst s)"
  by (cases s) (simp add: on_opened_def target_update target_def)

lemma on_opened_length: "length (fst (on_opened i s)) = length (fst s)"
  by (cases s) (simp add: on_opened_def)

lemma on_wrote_targets: "map target (fst (on_wrote i n s)) = map target (fst s)"
  by (cases s) (simp add: on_wrote_def Let_def target_update target_def)

lemma on_write_error_targets: "map target (fst (on_write_error i msg s)) = map target (fst s)"
  by (cases s) (simp add: on_write_error_def target_update target_def)

lemma on_finish_targets: "map target (fst (on_finish i s)) = map target (fst s)"
proof (cases s)
  case (Pair ps w)
  obtain ps1 w1 where o: "on_opened i (ps, w) = (ps1, w1)" by (cases "on_opened i (ps, w)")
  from on_opened_targets [of i "(ps, w)"] o have t: "map target ps1 = map target ps" by simp
  then have l: "length ps1 = length ps" by (metis length_map)
  show ?thesis
  proof (cases "i < length ps \<and> w_state (ps ! i) = Pending \<and> w_opened (ps1 ! i)")
    case True
    with l have "map target (ps1[i := (ps1 ! i)\<lparr>w_written := length (w_data (ps1 ! i)), w_state := Fulfilled\<rparr>])
        = map target ps1"
      by (simp add: target_update target_def)
    with True Pair o t show ?thesis by (simp add: on_finish_def)
  next
    case False
    with Pair o show ?thesis by (auto simp: on_finish_def)
  qed
qed

lemma deliver_targets:
  "map target (fst (deliver cfg ev s)) = map target (fst s) @ registered cfg [ev]"
proof (cases ev)
  case (Entry p b)
  then show ?thesis
    by (cases s) (simp add: on_entry_def Let_def target_def)
qed (simp_all add: on_opened_targets on_wrote_targets on_finish_targets on_write_error_targets)

lemma fold_targets:
  "map target (fst (fold (deliver cfg) evs s)) = map target (fst s) @ registered cfg evs"
proof (induction evs arbitrary: s)
  case Nil
  then show ?case by simp
next
  case (Cons ev evs)
  have "registered cfg (ev # evs) = registered cfg [ev] @ registered cfg evs"
    using registered_append [of cfg "[ev]" evs] by simp
  with Cons [of "deliver cfg ev s"] deliver_targets [of cfg ev s] show ?case by simp
qed

lemma fold_length_mono: "length (fst s) \<le> length (fst (fold (deliver cfg) evs s))"
  using fold_targets [of cfg evs s] by (metis length_map length_append le_add1)

lemma promise_all_Inr:
  "promise_all ps = Some (Inr ps') \<Longrightarrow> ps' = ps \<and> (\<forall>p\<in>set ps. w_state p = Fulfilled)"
  by (auto simp: promise_all_def list_all_iff split: option.splits if_splits)

lemma promise_all_Inl:
  "promise_all ps = Some (Inl err) \<Longrightarrow> \<exists>m. err = WriteFailed m \<and> first_rejected ps = Some m"
  by (auto simp: promise_all_def split: option.splits if_splits)

lemma await_all_Inr:
  "await_all cfg n evs s = Some (Inr ps', w') \<Longrightarrow>
     \<exists>seen later. evs = seen @ later
        \<and> ps' = take n (fst (fold (deliver cfg) seen s))
        \<and> w' = snd (fold (deliver cfg) seen s)
        \<and> (\<forall>p\<in>set ps'. w_state p = Fulfilled)"
proof (induction evs arbitrary: s)
  case Nil
  obtain ps w where s: "s = (ps, w)" by (cases s)
  with Nil have "promise_all (take n ps) = Some (Inr ps')" "w' = w"
    by (auto split: option.splits)
  with promise_all_Inr [of "take n ps" ps'] s show ?case by auto
next
  case (Cons ev evs)
  obtain ps w where s: "s = (ps, w)" by (cases s)
  show ?case
  proof (cases "promise_all (take n ps)")
    case None
    with Cons.prems s have "await_all cfg n evs (deliver cfg ev s) = Some (Inr ps', w')"
      by simp
    from Cons.IH [OF this] obtain seen later where
      "evs = seen @ later" "ps' = take n (fst (fold (deliver cfg) seen (deliver cfg ev s)))"
      "w' = snd (fold (deliver cfg) seen (deliver cfg ev s))" "\<forall>p\<in>set ps'. w_state p = Fulfilled"
      by blast
    then have "ev # evs = (ev # seen) @ later
        \<and> ps' = take n (fst (fold (deliver cfg) (ev # seen) s))
        \<and> w' = snd (fold (deliver cfg) (ev # seen) s)
        \<and> (\<forall>p\<in>set ps'. w_state p = Fulfilled)"
      by simp
    then show ?thesis by blast
  next
    case (Some r)
    with Cons.prems s have "promise_all (take n ps) = Some (Inr ps')" "w' = w"
      by auto
    with promise_all_Inr [of "take n ps" ps'] s
    have "ev # evs = [] @ (ev # evs)
        \<and> ps' = take n (fst (fold (deliver cfg) [] s))
        \<and> w' = snd (fold (deliver cfg) [] s)
        \<and> (\<forall>p\<in>set ps'. w_state p = Fulfilled)"
      by auto
    then show ?thesis by blast
  qed
qed

lemma await_end_Inr:
  "await_end cfg evs s = Some (Inr ps', w') \<Longrightarrow>
     \<exists>pre post. evs = pre @ End # post \<and> End \<notin> set pre
        \<and> await_all cfg (length (fst (fold (deliver cfg) pre s))) post (fold (deliver cfg) pre s)
            = Some (Inr ps', w')"
proof (induction evs arbitrary: s)
  case Nil
  then show ?case by (cases s) simp
next
  case (Cons ev evs)
  obtain ps w where s: "s = (ps, w)" by (cases s)
  show ?case
  proof (cases "ev = End")
    case True
    with Cons.prems s have "ev # evs = [] @ End # evs \<and> End \<notin> set []
        \<and> await_all cfg (length (fst (fold (deliver cfg) [] s))) evs (fold (deliver cfg) [] s)
            = Some (Inr ps', w')"
      by simp
    then show ?thesis by blast
  next
    case False
    with Cons.prems s have "await_end cfg evs (deliver cfg ev s) = Some (Inr ps', w')"
      by (cases ev) simp_all
    from Cons.IH [OF this] obtain pre post where
      "evs = pre @ End # post" "End \<notin> set pre"
      "await_all cfg (length (fst (fold (deliver cfg) pre (deliver cfg ev s)))) post
         (fold (deliver cfg) pre (deliver cfg ev s)) = Some (Inr ps', w')"
      by blast
    with False have "ev # evs = (ev # pre) @ End # post \<and> End \<notin> set (ev # pre)
        \<and> await_all cfg (length (fst (fold (deliver cfg) (ev # pre) s))) post
            (fold (deliver cfg) (ev # pre) s) = Some (Inr ps', w')"
      by simp
    then show ?thesis by blast
  qed
qed

lemma on_opened_state:
  "j < length (fst s) \<Longrightarrow> w_state (fst (on_opened i s) ! j) = w_state (fst s ! j)"
  by (cases s) (simp add: on_opened_def nth_list_update)

lemma on_wrote_state:
  "j < length (fst s) \<Longrightarrow> w_state (fst (on_wrote i n s) ! j) = w_state (fst s ! j)"
  by (cases s) (simp add: on_wrote_def Let_def nth_list_update)

lemma on_entry_state:
  "j < length (fst s) \<Longrightarrow> w_state (fst (on_entry cfg p b s) ! j) = w_state (fst s ! j)"
  by (cases s) (simp add: on_entry_def Let_def nth_append)

lemma on_write_error_state:
  "j < length (fst s) \<Longrightarrow>
     w_state (fst (on_write_error i msg s) ! j)
       = (if j = i \<and> w_state (fst s ! i) = Pending then Rejected msg else w_state (fst s ! j))"
  by (cases s) (simp add: on_write_error_def nth_list_update)

lemma on_finish_state:
  "j < length (fst s) \<Longrightarrow>
     w_state (fst (on_finish i s) ! j) = w_state (fst s ! j)
     \<or> (j = i \<and> w_state (fst s ! i) = Pending \<and> w_state (fst (on_finish i s) ! j) = Fulfilled)"
proof (cases s)
  case (Pair ps w)
  assume j: "j < length (fst s)"
  obtain ps1 w1 where o: "on_opened i (ps, w) = (ps1, w1)" by (cases "on_opened i (ps, w)")
  from on_opened_length [of i "(ps, w)"] o have l: "length ps1 = length ps" by simp
  from on_opened_state [of j "(ps, w)" i] o j Pair have st: "w_state (ps1 ! j) = w_state (ps ! j)"
    by simp
  from j Pair l st o show ?thesis
    by (auto simp: on_finish_def nth_list_update)
qed



lemma deliver_fulfilled:
  assumes "i < length (fst (deliver cfg ev s))" and "w_state (fst (deliver cfg ev s) ! i) = Fulfilled"
  shows "(i < length (fst s) \<and> w_state (fst s ! i) = Fulfilled) \<or> ev = Finish i"
proof (cases "i < length (fst s)")
  case False
  obtain ps w where s: "s = (ps, w)" by (cases s)
  show ?thesis
  proof (cases ev)
    case (Entry p b)
    with assms False s show ?thesis
      by (auto simp: on_entry_def Let_def nth_append split: if_splits)
  next
    case (Opened j)
    with assms False show ?thesis by (simp add: on_opened_length)
  next
    case (Wrote j k)
    with assms False on_wrote_targets [of j k s] show ?thesis by (metis deliver.simps(3) length_map)
  next
    case (Finish j)
    with assms False on_finish_targets [of j s] show ?thesis by (metis deliver.simps(4) length_map)
  next
    case (WriteError j msg)
    with assms False on_write_error_targets [of j msg s] show ?thesis
      by (metis deliver.simps(5) length_map)
  next
    case End
    with assms False show ?thesis by simp
  next
    case (StreamError msg)
    with assms False show ?thesis by simp
  qed
next
  case True
  show ?thesis
  proof (cases ev)
    case (Entry p b)
    with assms True show ?thesis by (simp add: on_entry_state)
  next
    case (Opened j)
    with assms True show ?thesis by (simp add: on_opened_state)
  next
    case (Wrote j k)
    with assms True show ?thesis by (simp add: on_wrote_state)
  next
    case (Finish j)
    with assms True on_finish_state [OF True, of j] show ?thesis by auto
  next
    case (WriteError j msg)
    with assms True show ?thesis by (simp add: on_write_error_state split: if_splits)
  next
    case End
    with assms True show ?thesis by simp
  next
    case (StreamError msg)
    with assms True show ?thesis by simp
  qed
qed

lemma fold_fulfilled:
  "i < length (fst (fold (deliver cfg) evs s)) \<Longrightarrow>
   w_state (fst (fold (deliver cfg) evs s) ! i) = Fulfilled \<Longrightarrow>
     (i < length (fst s) \<and> w_state (fst s ! i) = Fulfilled) \<or> Finish i \<in> set evs"
proof (induction evs arbitrary: s)
  case Nil
  then show ?case by simp
next
  case (Cons ev evs)
  from Cons.IH [of "deliver cfg ev s"] Cons.prems
  have "(i < length (fst (deliver cfg ev s)) \<and> w_state (fst (deliver cfg ev s) ! i) = Fulfilled)
        \<or> Finish i \<in> set evs"
    by simp
  with deliver_fulfilled [of i cfg ev s] show ?case by auto
qed


lemma extraction_completed:
  assumes c: "await_end cfg seen ([], w) = Some (Inr ps, w')"
    and wf: "entries_before_end (seen @ later)"
  shows "\<exists>used. prefix used seen \<and> End \<in> set used
           \<and> (ps, w') = fold (deliver cfg) used ([], w)
           \<and> map target ps = registered cfg (seen @ later)
           \<and> (\<forall>p\<in>set ps. w_state p = Fulfilled)"
proof -
  from await_end_Inr [OF c] obtain pre post where
    ev: "seen = pre @ End # post" and pre: "End \<notin> set pre"
    and a: "await_all cfg (length (fst (fold (deliver cfg) pre ([], w)))) post
              (fold (deliver cfg) pre ([], w)) = Some (Inr ps, w')"
    by blast
  let ?s1 = "fold (deliver cfg) pre ([], w)"
  from await_all_Inr [OF a] obtain mid rest where
    post: "post = mid @ rest"
    and ps: "ps = take (length (fst ?s1)) (fst (fold (deliver cfg) mid ?s1))"
    and w': "w' = snd (fold (deliver cfg) mid ?s1)"
    and ful: "\<forall>p\<in>set ps. w_state p = Fulfilled"
    by blast
  let ?used = "pre @ End # mid"
  let ?s2 = "fold (deliver cfg) ?used ([], w)"
  have s2: "?s2 = fold (deliver cfg) mid ?s1" by simp
  from wf ev post have "entries_before_end (pre @ End # (mid @ rest @ later))" by simp
  from entries_before_end_split [OF this pre]
  have ne: "list_all (\<lambda>ev. \<not> is_entry ev) (mid @ rest @ later)" .
  then have "list_all (\<lambda>ev. \<not> is_entry ev) mid" by simp
  then have rm: "registered cfg mid = []" by (rule registered_no_entry)
  from ne have rl: "registered cfg (mid @ rest @ later) = []" by (rule registered_no_entry)
  have t1: "map target (fst ?s1) = registered cfg pre"
    using fold_targets [of cfg pre "([], w)"] by simp
  have t2: "map target (fst ?s2) = registered cfg pre"
    using fold_targets [of cfg ?used "([], w)"] rm by (simp add: registered_append)
  from t1 t2 have "length (fst ?s2) = length (fst ?s1)"
    by (metis length_map)
  with ps s2 have psf: "ps = fst ?s2" by simp
  have all: "registered cfg (seen @ later) = registered cfg pre"
    using ev post rl by (simp add: registered_append)
  from psf w' s2 have "(ps, w') = ?s2" by simp
  moreover have "prefix ?used seen" using ev post by simp
  moreover have "End \<in> set ?used" by simp
  moreover from psf t2 all have "map target ps = registered cfg (seen @ later)" by simp
  ultimately show ?thesis using ful by blast
qed

lemma await_all_world:
  "await_all cfg n evs s = Some (r, w') \<Longrightarrow>
     \<exists>seen later. evs = seen @ later \<and> w' = snd (fold (deliver cfg) seen s)"
proof (induction evs arbitrary: s)
  case Nil
  obtain ps w where s: "s = (ps, w)" by (cases s)
  with Nil have "w' = w" by (auto split: option.splits)
  with s show ?case by simp
next
  case (Cons ev evs)
  obtain ps w where s: "s = (ps, w)" by (cases s)
  show ?case
  proof (cases "promise_all (take n ps)")
    case None
    with Cons.prems s have "await_all cfg n evs (deliver cfg ev s) = Some (r, w')" by simp
    from Cons.IH [OF this] obtain seen later where
      "evs = seen @ later" "w' = snd (fold (deliver cfg) seen (deliver cfg ev s))" by blast
    then have "ev # evs = (ev # seen) @ later \<and> w' = snd (fold (deliver cfg) (ev # seen) s)"
      by simp
    then show ?thesis by blast
  next
    case (Some r0)
    with Cons.prems s have "w' = w" by auto
    with s have "ev # evs = [] @ (ev # evs) \<and> w' = snd (fold (deliver cfg) [] s)" by simp
    then show ?thesis by blast
  qed
qed

lemma await_end_world:
  "await_end cfg evs s = Some (r, w') \<Longrightarrow>
     \<exists>seen later. evs = seen @ later \<and> w' = snd (fold (deliver cfg) seen s)"
proof (induction evs arbitrary: s)
  case Nil
  then show ?case by (cases s) simp
next
  case (Cons ev evs)
  obtain ps w where s: "s = (ps, w)" by (cases s)
  have step: "\<exists>seen later. ev # evs = seen @ later \<and> w' = snd (fold (deliver cfg) seen s)"
    if "\<exists>seen later. evs = seen @ later \<and> w' = snd (fold (deliver cfg) seen (deliver cfg ev s))"
  proof -
    from that obtain seen later where
      "evs = seen @ later" "w' = snd (fold (deliver cfg) seen (deliver cfg ev s))" by blast
    then have "ev # evs = (ev # seen) @ later \<and> w' = snd (fold (deliver cfg) (ev # seen) s)"
      by simp
    then show ?thesis by blast
  qed
  show ?case
  proof (cases "ev = End \<or> (\<exists>msg. ev = StreamError msg)")
    case False
    with Cons.prems s have "await_end cfg evs (deliver cfg ev s) = Some (r, w')"
      by (cases ev) simp_all
    from step [OF Cons.IH [OF this]] show ?thesis .
  next
    case True
    then show ?thesis
    proof
      assume "ev = End"
      with Cons.prems s have "await_all cfg (length ps) evs (deliver cfg ev s) = Some (r, w')"
        by simp
      from step [OF await_all_world [OF this]] show ?thesis .
    next
      assume "\<exists>msg. ev = StreamError msg"
      with Cons.prems s have "w' = w" by auto
      with s have "ev # evs = [] @ (ev # evs) \<and> w' = snd (fold (deliver cfg) [] s)" by simp
      then show ?thesis by blast
    qed
  qed
qed

lemma fs_open_files: "files (fs_open dst w) = (files w)(dst \<mapsto> \<lparr>bytes = [], mtimeMs = clock w\<rparr>)"
  by (simp add: fs_open_def)

lemma fs_write_dom: "dom (files (fs_write dst pos bs w)) = insert dst (dom (files w))"
  by (simp add: fs_write_def)

lemma fs_write_other: "q \<noteq> dst \<Longrightarrow> files (fs_write dst pos bs w) q = files w q"
  by (simp add: fs_write_def)

lemma fs_open_other: "q \<noteq> dst \<Longrightarrow> files (fs_open dst w) q = files w q"
  by (simp add: fs_open_def)

lemma on_opened_dom:
  "dom (files (snd (on_opened i s))) \<subseteq> dom (files (snd s)) \<union> w_dst ` set (fst s)"
  by (cases s) (auto simp: on_opened_def fs_open_def)

lemma on_wrote_dom:
  "dom (files (snd (on_wrote i n s))) \<subseteq> dom (files (snd s)) \<union> w_dst ` set (fst s)"
  by (cases s) (auto simp: on_wrote_def Let_def fs_write_def)

lemma dst_set_targets: "w_dst ` set ps = fst ` set (map target ps)"
  by (auto simp: target_def image_iff)

lemma on_finish_dom:
  "dom (files (snd (on_finish i s))) \<subseteq> dom (files (snd s)) \<union> w_dst ` set (fst s)"
proof (cases s)
  case (Pair ps w)
  obtain ps1 w1 where o: "on_opened i (ps, w) = (ps1, w1)" by (cases "on_opened i (ps, w)")
  from on_opened_dom [of i "(ps, w)"] o
  have d: "dom (files w1) \<subseteq> dom (files w) \<union> w_dst ` set ps" by simp
  from on_opened_targets [of i "(ps, w)"] o have t: "map target ps1 = map target ps" by simp
  then have l: "length ps1 = length ps" by (metis length_map)
  from t have ds: "w_dst ` set ps1 = w_dst ` set ps" by (simp add: dst_set_targets)
  show ?thesis
  proof (cases "i < length ps \<and> w_state (ps ! i) = Pending \<and> w_opened (ps1 ! i)")
    case True
    with l have "w_dst (ps1 ! i) \<in> w_dst ` set ps1" by simp
    with ds have "w_dst (ps1 ! i) \<in> w_dst ` set ps" by simp
    with True Pair o d show ?thesis
      by (auto simp: on_finish_def fs_write_dom)
  next
    case False
    with Pair o show ?thesis by (auto simp: on_finish_def)
  qed
qed

lemma deliver_dom:
  "dom (files (snd (deliver cfg ev s))) \<subseteq> dom (files (snd s)) \<union> w_dst ` set (fst s)"
proof (cases ev)
  case (Entry p b)
  then show ?thesis by (cases s) (simp add: on_entry_def Let_def emit_def)
next
  case (Opened i)
  with on_opened_dom [of i s] show ?thesis by simp
next
  case (Wrote i n)
  with on_wrote_dom [of i n s] show ?thesis by simp
next
  case (Finish i)
  with on_finish_dom [of i s] show ?thesis by simp
next
  case (WriteError i msg)
  then show ?thesis by (cases s) (simp add: on_write_error_def)
next
  case End
  then show ?thesis by simp
next
  case (StreamError msg)
  then show ?thesis by simp
qed

lemma deliver_dsts_mono: "w_dst ` set (fst s) \<subseteq> w_dst ` set (fst (deliver cfg ev s))"
proof -
  have "set (map target (fst (deliver cfg ev s)))
          = set (map target (fst s)) \<union> set (registered cfg [ev])"
    by (simp add: deliver_targets)
  then have "fst ` set (map target (fst s)) \<subseteq> fst ` set (map target (fst (deliver cfg ev s)))"
    by blast
  then show ?thesis by (simp only: dst_set_targets)
qed

lemma fold_dsts_mono: "w_dst ` set (fst s) \<subseteq> w_dst ` set (fst (fold (deliver cfg) evs s))"
proof -
  have "set (map target (fst (fold (deliver cfg) evs s)))
          = set (map target (fst s)) \<union> set (registered cfg evs)"
    by (simp add: fold_targets)
  then have "fst ` set (map target (fst s)) \<subseteq> fst ` set (map target (fst (fold (deliver cfg) evs s)))"
    by blast
  then show ?thesis by (simp only: dst_set_targets)
qed

lemma fold_dom:
  "dom (files (snd (fold (deliver cfg) evs s)))
     \<subseteq> dom (files (snd s)) \<union> w_dst ` set (fst (fold (deliver cfg) evs s))"
proof (induction evs arbitrary: s)
  case Nil
  then show ?case by simp
next
  case (Cons ev evs)
  let ?s1 = "deliver cfg ev s"
  let ?s2 = "fold (deliver cfg) evs ?s1"
  have a: "dom (files (snd ?s2)) \<subseteq> dom (files (snd ?s1)) \<union> w_dst ` set (fst ?s2)"
    by (rule Cons.IH)
  have b: "dom (files (snd ?s1)) \<subseteq> dom (files (snd s)) \<union> w_dst ` set (fst s)"
    by (rule deliver_dom)
  have c: "w_dst ` set (fst s) \<subseteq> w_dst ` set (fst ?s1)" by (rule deliver_dsts_mono)
  have d: "w_dst ` set (fst ?s1) \<subseteq> w_dst ` set (fst ?s2)" by (rule fold_dsts_mono)
  from a b c d have "dom (files (snd ?s2)) \<subseteq> dom (files (snd s)) \<union> w_dst ` set (fst ?s2)"
    by blast
  then show ?case by simp
qed

lemma progress_update:
  assumes "progress_ok (ps, w)" and "write_ok q"
  shows "progress_ok (ps[i := q], w')"
proof -
  have "write_ok p" if "p \<in> set (ps[i := q])" for p
  proof -
    from in_set_update [OF that] have "p = q \<or> p \<in> set ps" .
    with assms show ?thesis by (auto simp: progress_ok_def)
  qed
  then show ?thesis by (simp add: progress_ok_def)
qed

lemma progress_nth: "progress_ok (ps, w) \<Longrightarrow> i < length ps \<Longrightarrow> write_ok (ps ! i)"
  by (simp add: progress_ok_def)

lemma progress_world: "progress_ok (ps, w) \<Longrightarrow> progress_ok (ps, w')"
  by (simp add: progress_ok_def)

lemma on_opened_progress: "progress_ok s \<Longrightarrow> progress_ok (on_opened i s)"
proof (cases s)
  case (Pair ps w)
  assume "progress_ok s"
  with Pair have p: "progress_ok (ps, w)" by simp
  show ?thesis
  proof (cases "i < length ps \<and> w_state (ps ! i) = Pending \<and> \<not> w_opened (ps ! i)
        \<and> dirs w (w_dst (ps ! i)) = None")
    case True
    with progress_nth [OF p, of i] have "write_ok ((ps ! i)\<lparr>w_opened := True\<rparr>)"
      by (simp add: write_ok_def)
    from progress_update [OF p this] True Pair show ?thesis by (simp add: on_opened_def)
  next
    case False
    with p Pair show ?thesis by (auto simp: on_opened_def)
  qed
qed

lemma on_wrote_progress: "progress_ok s \<Longrightarrow> progress_ok (on_wrote i n s)"
proof (cases s)
  case (Pair ps w)
  assume "progress_ok s"
  with Pair have p: "progress_ok (ps, w)" by simp
  show ?thesis
  proof (cases "i < length ps \<and> w_state (ps ! i) = Pending \<and> w_opened (ps ! i)")
    case True
    with progress_nth [OF p, of i]
    have "write_ok ((ps ! i)\<lparr>w_written := w_written (ps ! i)
            + length (take n (drop (w_written (ps ! i)) (w_data (ps ! i))))\<rparr>)"
      by (simp add: write_ok_def)
    from progress_update [OF p this] True Pair show ?thesis by (simp add: on_wrote_def Let_def)
  next
    case False
    with p Pair show ?thesis by (auto simp: on_wrote_def)
  qed
qed

lemma on_write_error_progress: "progress_ok s \<Longrightarrow> progress_ok (on_write_error i msg s)"
proof (cases s)
  case (Pair ps w)
  assume "progress_ok s"
  with Pair have p: "progress_ok (ps, w)" by simp
  show ?thesis
  proof (cases "i < length ps \<and> w_state (ps ! i) = Pending")
    case True
    with progress_nth [OF p, of i] have "write_ok ((ps ! i)\<lparr>w_state := Rejected msg\<rparr>)"
      by (simp add: write_ok_def)
    from progress_update [OF p this] True Pair show ?thesis by (simp add: on_write_error_def)
  next
    case False
    with p Pair show ?thesis by (auto simp: on_write_error_def)
  qed
qed

lemma on_entry_progress: "progress_ok s \<Longrightarrow> progress_ok (on_entry cfg p b s)"
  by (cases s) (simp add: on_entry_def Let_def progress_ok_def write_ok_def)

lemma on_finish_progress: "progress_ok s \<Longrightarrow> progress_ok (on_finish i s)"
proof (cases s)
  case (Pair ps w)
  assume p0: "progress_ok s"
  with Pair have p: "progress_ok (ps, w)" by simp
  obtain ps1 w1 where o: "on_opened i (ps, w) = (ps1, w1)" by (cases "on_opened i (ps, w)")
  from on_opened_progress [OF p, of i] o have p1: "progress_ok (ps1, w1)" by simp
  from on_opened_length [of i "(ps, w)"] o have l: "length ps1 = length ps" by simp
  show ?thesis
  proof (cases "i < length ps \<and> w_state (ps ! i) = Pending \<and> w_opened (ps1 ! i)")
    case True
    then have "write_ok ((ps1 ! i)\<lparr>w_written := length (w_data (ps1 ! i)), w_state := Fulfilled\<rparr>)"
      by (simp add: write_ok_def)
    from progress_update [OF p1 this] True Pair o show ?thesis by (simp add: on_finish_def)
  next
    case False
    with p Pair o show ?thesis by (auto simp: on_finish_def)
  qed
qed

lemma deliver_progress: "progress_ok s \<Longrightarrow> progress_ok (deliver cfg ev s)"
  by (cases ev)
     (simp_all add: on_entry_progress on_opened_progress on_wrote_progress on_finish_progress
        on_write_error_progress)

lemma fold_progress: "progress_ok s \<Longrightarrow> progress_ok (fold (deliver cfg) evs s)"
  by (induction evs arbitrary: s) (simp_all add: deliver_progress)

lemma dsts_update:
  assumes d: "dsts_exist (ps, w)"
    and k: "\<And>q. files w q \<noteq> None \<Longrightarrow> files w' q \<noteq> None"
    and n: "w_opened q0 \<Longrightarrow> files w' (w_dst q0) \<noteq> None"
  shows "dsts_exist (ps[i := q0], w')"
proof -
  have "files w' (w_dst p) \<noteq> None" if "p \<in> set (ps[i := q0])" "w_opened p" for p
  proof -
    from in_set_update [OF that(1)] have "p = q0 \<or> p \<in> set ps" .
    then show ?thesis
    proof
      assume "p = q0"
      with n that(2) show ?thesis by simp
    next
      assume "p \<in> set ps"
      with d that(2) have "files w (w_dst p) \<noteq> None" by (simp add: dsts_exist_def)
      then show ?thesis by (rule k)
    qed
  qed
  then show ?thesis by (simp add: dsts_exist_def)
qed

lemma on_opened_dsts: "dsts_exist s \<Longrightarrow> dsts_exist (on_opened i s)"
proof (cases s)
  case (Pair ps w)
  assume "dsts_exist s"
  with Pair have d: "dsts_exist (ps, w)" by simp
  show ?thesis
  proof (cases "i < length ps \<and> w_state (ps ! i) = Pending \<and> \<not> w_opened (ps ! i)
        \<and> dirs w (w_dst (ps ! i)) = None")
    case True
    have "dsts_exist (ps[i := (ps ! i)\<lparr>w_opened := True\<rparr>], fs_open (w_dst (ps ! i)) w)"
      by (rule dsts_update [OF d]) (simp_all add: fs_open_def)
    with True Pair show ?thesis by (simp add: on_opened_def)
  next
    case False
    with d Pair show ?thesis by (auto simp: on_opened_def)
  qed
qed

lemma on_wrote_dsts: "dsts_exist s \<Longrightarrow> dsts_exist (on_wrote i n s)"
proof (cases s)
  case (Pair ps w)
  assume "dsts_exist s"
  with Pair have d: "dsts_exist (ps, w)" by simp
  show ?thesis
  proof (cases "i < length ps \<and> w_state (ps ! i) = Pending \<and> w_opened (ps ! i)")
    case True
    let ?chunk = "take n (drop (w_written (ps ! i)) (w_data (ps ! i)))"
    have "dsts_exist (ps[i := (ps ! i)\<lparr>w_written := w_written (ps ! i) + length ?chunk\<rparr>],
            fs_write (w_dst (ps ! i)) (w_written (ps ! i)) ?chunk w)"
      by (rule dsts_update [OF d]) (simp_all add: fs_write_def)
    with True Pair show ?thesis by (simp add: on_wrote_def Let_def)
  next
    case False
    with d Pair show ?thesis by (auto simp: on_wrote_def)
  qed
qed

lemma on_write_error_dsts: "dsts_exist s \<Longrightarrow> dsts_exist (on_write_error i msg s)"
proof (cases s)
  case (Pair ps w)
  assume "dsts_exist s"
  with Pair have d: "dsts_exist (ps, w)" by simp
  show ?thesis
  proof (cases "i < length ps \<and> w_state (ps ! i) = Pending")
    case True
    with d have "w_opened (ps ! i) \<longrightarrow> files w (w_dst (ps ! i)) \<noteq> None"
      by (simp add: dsts_exist_def)
    then have "dsts_exist (ps[i := (ps ! i)\<lparr>w_state := Rejected msg\<rparr>], w)"
      by (intro dsts_update [OF d]) simp_all
    with True Pair show ?thesis by (simp add: on_write_error_def)
  next
    case False
    with d Pair show ?thesis by (auto simp: on_write_error_def)
  qed
qed

lemma on_entry_dsts: "dsts_exist s \<Longrightarrow> dsts_exist (on_entry cfg p b s)"
  by (cases s) (simp add: on_entry_def Let_def dsts_exist_def emit_def)

lemma on_finish_dsts: "dsts_exist s \<Longrightarrow> dsts_exist (on_finish i s)"
proof (cases s)
  case (Pair ps w)
  assume "dsts_exist s"
  with Pair have d: "dsts_exist (ps, w)" by simp
  obtain ps1 w1 where o: "on_opened i (ps, w) = (ps1, w1)" by (cases "on_opened i (ps, w)")
  from on_opened_dsts [OF d, of i] o have d1: "dsts_exist (ps1, w1)" by simp
  show ?thesis
  proof (cases "i < length ps \<and> w_state (ps ! i) = Pending \<and> w_opened (ps1 ! i)")
    case True
    have "dsts_exist (ps1[i := (ps1 ! i)\<lparr>w_written := length (w_data (ps1 ! i)), w_state := Fulfilled\<rparr>],
            fs_write (w_dst (ps1 ! i)) (w_written (ps1 ! i))
               (drop (w_written (ps1 ! i)) (w_data (ps1 ! i))) w1)"
      by (rule dsts_update [OF d1]) (simp_all add: fs_write_def)
    with True Pair o show ?thesis by (simp add: on_finish_def)
  next
    case False
    with d Pair o show ?thesis by (auto simp: on_finish_def)
  qed
qed

lemma deliver_dsts: "dsts_exist s \<Longrightarrow> dsts_exist (deliver cfg ev s)"
  by (cases ev)
     (simp_all add: on_entry_dsts on_opened_dsts on_wrote_dsts on_finish_dsts on_write_error_dsts)

lemma fold_dsts: "dsts_exist s \<Longrightarrow> dsts_exist (fold (deliver cfg) evs s)"
  by (induction evs arbitrary: s) (simp_all add: deliver_dsts)

lemma written_update:
  assumes k: "written_ok (ps, w)" and i: "i < length ps" and d: "distinct (map w_dst ps)"
    and o: "\<And>q. q \<noteq> w_dst (ps ! i) \<Longrightarrow> files w' q = files w q"
    and n: "w_opened q0 \<Longrightarrow>
              map_option bytes (files w' (w_dst q0)) = Some (take (w_written q0) (w_data q0))"
  shows "written_ok (ps[i := q0], w')"
proof -
  have "map_option bytes (files w' (w_dst (ps[i := q0] ! j)))
          = Some (take (w_written (ps[i := q0] ! j)) (w_data (ps[i := q0] ! j)))"
    if j: "j < length ps" and op: "w_opened (ps[i := q0] ! j)" for j
  proof (cases "j = i")
    case True
    with i op n show ?thesis by simp
  next
    case False
    with op have oj: "w_opened (ps ! j)" and e: "ps[i := q0] ! j = ps ! j" by simp_all
    have "map w_dst ps ! j \<noteq> map w_dst ps ! i"
      using d i j False nth_eq_iff_index_eq [of "map w_dst ps" j i] by simp
    with i j have "w_dst (ps ! j) \<noteq> w_dst (ps ! i)" by simp
    then have "files w' (w_dst (ps ! j)) = files w (w_dst (ps ! j))" by (rule o)
    moreover from k j oj
    have "map_option bytes (files w (w_dst (ps ! j))) = Some (take (w_written (ps ! j)) (w_data (ps ! j)))"
      by (simp add: written_ok_def)
    ultimately show ?thesis using e by simp
  qed
  then show ?thesis by (simp add: written_ok_def)
qed

lemma write_at_end: "length old = pos \<Longrightarrow> write_at old pos bs = old @ bs"
  by (simp add: write_at_def)

lemma take_chunk:
  "take k xs @ take n (drop k xs) = take (k + length (take n (drop k xs))) xs"
proof -
  have "take (k + length (take n (drop k xs))) xs
          = take k xs @ take (length (take n (drop k xs))) (drop k xs)"
    by (rule take_add)
  also have "take (length (take n (drop k xs))) (drop k xs) = take n (drop k xs)"
    by (simp add: min_def)
  finally show ?thesis by simp
qed

lemma on_opened_written:
  assumes d: "distinct (map w_dst (fst s))" and p: "progress_ok s" and k: "written_ok s"
  shows "written_ok (on_opened i s)"
proof (cases s)
  case (Pair ps w)
  with d p k have d': "distinct (map w_dst ps)" and p': "progress_ok (ps, w)"
    and k': "written_ok (ps, w)" by simp_all
  show ?thesis
  proof (cases "i < length ps \<and> w_state (ps ! i) = Pending \<and> \<not> w_opened (ps ! i)
        \<and> dirs w (w_dst (ps ! i)) = None")
    case True
    then have i: "i < length ps" by simp
    from progress_nth [OF p' i] True have z: "w_written (ps ! i) = 0" by (simp add: write_ok_def)
    have "written_ok (ps[i := (ps ! i)\<lparr>w_opened := True\<rparr>], fs_open (w_dst (ps ! i)) w)"
      by (rule written_update [OF k' i d']) (simp_all add: fs_open_def z)
    with True Pair show ?thesis by (simp add: on_opened_def)
  next
    case False
    with k' Pair show ?thesis by (auto simp: on_opened_def)
  qed
qed

lemma on_wrote_written:
  assumes d: "distinct (map w_dst (fst s))" and p: "progress_ok s" and k: "written_ok s"
  shows "written_ok (on_wrote i n s)"
proof (cases s)
  case (Pair ps w)
  with d p k have d': "distinct (map w_dst ps)" and p': "progress_ok (ps, w)"
    and k': "written_ok (ps, w)" by simp_all
  show ?thesis
  proof (cases "i < length ps \<and> w_state (ps ! i) = Pending \<and> w_opened (ps ! i)")
    case True
    then have i: "i < length ps" and op: "w_opened (ps ! i)" by simp_all
    let ?k = "w_written (ps ! i)"
    let ?data = "w_data (ps ! i)"
    let ?chunk = "take n (drop ?k ?data)"
    from progress_nth [OF p' i] have kl: "?k \<le> length ?data" by (simp add: write_ok_def)
    from k' i op have old: "map_option bytes (files w (w_dst (ps ! i))) = Some (take ?k ?data)"
      by (simp add: written_ok_def)
    then obtain f where f: "files w (w_dst (ps ! i)) = Some f" and fb: "bytes f = take ?k ?data"
      by auto
    from kl have "length (take ?k ?data) = ?k" by simp
    then have "write_at (take ?k ?data) ?k ?chunk = take ?k ?data @ ?chunk" by (rule write_at_end)
    also have "\<dots> = take (?k + length ?chunk) ?data" by (rule take_chunk)
    finally have wa: "write_at (take ?k ?data) ?k ?chunk = take (?k + length ?chunk) ?data" .
    have new: "map_option bytes (files (fs_write (w_dst (ps ! i)) ?k ?chunk w) (w_dst (ps ! i)))
                 = Some (take (?k + length ?chunk) ?data)"
      using f fb wa by (simp add: fs_write_def)
    have "written_ok (ps[i := (ps ! i)\<lparr>w_written := ?k + length ?chunk\<rparr>],
            fs_write (w_dst (ps ! i)) ?k ?chunk w)"
      by (rule written_update [OF k' i d']) (use new in \<open>simp_all add: fs_write_other\<close>)
    with True Pair show ?thesis by (simp add: on_wrote_def Let_def)
  next
    case False
    with k' Pair show ?thesis by (auto simp: on_wrote_def)
  qed
qed

lemma on_write_error_written:
  assumes d: "distinct (map w_dst (fst s))" and k: "written_ok s"
  shows "written_ok (on_write_error i msg s)"
proof (cases s)
  case (Pair ps w)
  with d k have d': "distinct (map w_dst ps)" and k': "written_ok (ps, w)" by simp_all
  show ?thesis
  proof (cases "i < length ps \<and> w_state (ps ! i) = Pending")
    case True
    then have i: "i < length ps" by simp
    from k' i have "w_opened (ps ! i) \<Longrightarrow>
        map_option bytes (files w (w_dst (ps ! i))) = Some (take (w_written (ps ! i)) (w_data (ps ! i)))"
      by (simp add: written_ok_def)
    then have "written_ok (ps[i := (ps ! i)\<lparr>w_state := Rejected msg\<rparr>], w)"
      by (intro written_update [OF k' i d']) simp_all
    with True Pair show ?thesis by (simp add: on_write_error_def)
  next
    case False
    with k' Pair show ?thesis by (auto simp: on_write_error_def)
  qed
qed

lemma on_entry_written: "written_ok s \<Longrightarrow> written_ok (on_entry cfg p b s)"
  by (cases s) (auto simp: on_entry_def Let_def written_ok_def emit_def nth_append less_Suc_eq)

lemma on_opened_dsts_list: "map w_dst (fst (on_opened i s)) = map w_dst (fst s)"
proof -
  have "map fst (map target (fst (on_opened i s))) = map fst (map target (fst s))"
    by (simp only: on_opened_targets)
  then show ?thesis by (simp add: target_def comp_def)
qed

lemma on_finish_written:
  assumes d: "distinct (map w_dst (fst s))" and p: "progress_ok s" and k: "written_ok s"
  shows "written_ok (on_finish i s)"
proof (cases s)
  case (Pair ps w)
  with k have k': "written_ok (ps, w)" by simp
  obtain ps1 w1 where o: "on_opened i (ps, w) = (ps1, w1)" by (cases "on_opened i (ps, w)")
  from on_opened_written [OF d p k, of i] Pair o have k1: "written_ok (ps1, w1)" by simp
  from on_opened_progress [OF p, of i] Pair o have p1: "progress_ok (ps1, w1)" by simp
  from on_opened_dsts_list [of i s] Pair o d have d1: "distinct (map w_dst ps1)" by simp
  from on_opened_length [of i "(ps, w)"] o have l: "length ps1 = length ps" by simp
  show ?thesis
  proof (cases "i < length ps \<and> w_state (ps ! i) = Pending \<and> w_opened (ps1 ! i)")
    case True
    with l have i: "i < length ps1" and op: "w_opened (ps1 ! i)" by simp_all
    let ?k = "w_written (ps1 ! i)"
    let ?data = "w_data (ps1 ! i)"
    from progress_nth [OF p1 i] have kl: "?k \<le> length ?data" by (simp add: write_ok_def)
    from k1 i op have "map_option bytes (files w1 (w_dst (ps1 ! i))) = Some (take ?k ?data)"
      by (simp add: written_ok_def)
    then obtain f where f: "files w1 (w_dst (ps1 ! i)) = Some f" and fb: "bytes f = take ?k ?data"
      by auto
    from kl have "length (take ?k ?data) = ?k" by simp
    then have "write_at (take ?k ?data) ?k (drop ?k ?data) = take ?k ?data @ drop ?k ?data"
      by (rule write_at_end)
    then have wa: "write_at (take ?k ?data) ?k (drop ?k ?data) = ?data" by simp
    have new: "map_option bytes (files (fs_write (w_dst (ps1 ! i)) ?k (drop ?k ?data) w1) (w_dst (ps1 ! i)))
                 = Some ?data"
      using f fb wa by (simp add: fs_write_def)
    have "written_ok (ps1[i := (ps1 ! i)\<lparr>w_written := length ?data, w_state := Fulfilled\<rparr>],
            fs_write (w_dst (ps1 ! i)) ?k (drop ?k ?data) w1)"
      by (rule written_update [OF k1 i d1]) (use new in \<open>simp_all add: fs_write_other\<close>)
    with True Pair o show ?thesis by (simp add: on_finish_def)
  next
    case False
    with k' Pair o show ?thesis by (auto simp: on_finish_def)
  qed
qed

lemma deliver_dsts_list:
  "map w_dst (fst (deliver cfg ev s)) = map w_dst (fst s) @ map fst (registered cfg [ev])"
proof -
  have "map fst (map target (fst (deliver cfg ev s)))
          = map fst (map target (fst s) @ registered cfg [ev])"
    by (simp only: deliver_targets)
  then show ?thesis by (simp add: target_def comp_def)
qed

lemma fold_dsts_list:
  "map w_dst (fst (fold (deliver cfg) evs s)) = map w_dst (fst s) @ map fst (registered cfg evs)"
proof -
  have "map fst (map target (fst (fold (deliver cfg) evs s)))
          = map fst (map target (fst s) @ registered cfg evs)"
    by (simp only: fold_targets)
  then show ?thesis by (simp add: target_def comp_def)
qed

lemma deliver_written:
  assumes d: "distinct (map w_dst (fst (deliver cfg ev s)))"
    and p: "progress_ok s" and k: "written_ok s"
  shows "written_ok (deliver cfg ev s)"
proof -
  from d deliver_dsts_list [of cfg ev s] have d0: "distinct (map w_dst (fst s))" by simp
  show ?thesis
  proof (cases ev)
    case (Entry q b)
    with k show ?thesis by (simp add: on_entry_written)
  next
    case (Opened i)
    with on_opened_written [OF d0 p k] show ?thesis by simp
  next
    case (Wrote i n)
    with on_wrote_written [OF d0 p k] show ?thesis by simp
  next
    case (Finish i)
    with on_finish_written [OF d0 p k] show ?thesis by simp
  next
    case (WriteError i msg)
    with on_write_error_written [OF d0 k] show ?thesis by simp
  next
    case End
    with k show ?thesis by simp
  next
    case (StreamError msg)
    with k show ?thesis by simp
  qed
qed

lemma fold_written:
  "distinct (map w_dst (fst (fold (deliver cfg) evs s))) \<Longrightarrow> progress_ok s \<Longrightarrow> written_ok s \<Longrightarrow>
     written_ok (fold (deliver cfg) evs s)"
proof (induction evs arbitrary: s)
  case Nil
  then show ?case by simp
next
  case (Cons ev evs)
  from Cons.prems(1) fold_dsts_list [of cfg evs "deliver cfg ev s"]
  have d1: "distinct (map w_dst (fst (deliver cfg ev s)))" by simp
  from deliver_written [OF d1 Cons.prems(2,3)] have k1: "written_ok (deliver cfg ev s)" .
  from deliver_progress [OF Cons.prems(2)] have p1: "progress_ok (deliver cfg ev s)" .
  from Cons.IH [of "deliver cfg ev s"] Cons.prems(1) p1 k1 show ?case by simp
qed











lemma fold_not_fulfilled:
  assumes "i < length (fst s)" "w_state (fst s ! i) \<noteq> Fulfilled" "Finish i \<notin> set evs"
  shows "w_state (fst (fold (deliver cfg) evs s) ! i) \<noteq> Fulfilled"
proof
  assume f: "w_state (fst (fold (deliver cfg) evs s) ! i) = Fulfilled"
  from assms(1) fold_length_mono [of s cfg evs] have "i < length (fst (fold (deliver cfg) evs s))"
    by simp
  from fold_fulfilled [OF this f] assms show False by simp
qed

text \<open>
  Claim C3. Take an archive stream whose events are \<open>seen @ later\<close>, with no entry
  after \<open>end\<close>. If the extraction has completed when only \<open>seen\<close> has been delivered,
  then \<open>end\<close> is among \<open>seen\<close>, a write has been registered for every entry of the whole
  stream whose path ends in \<open>.mmdb\<close>, and each of these writes is fulfilled, its
  \<open>finish\<close> being among \<open>seen\<close> too. The order in which entries arrive and writes
  finish, and the bytes of the entries, are arbitrary.
\<close>

theorem extraction_completes_after_end_and_writes:
  assumes c: "extraction cfg (resp\<lparr>body := seen\<rparr>) w = Some (Inr ps, w')"
    and wf: "entries_before_end (seen @ later)"
  shows "End \<in> set seen
     \<and> map target ps = registered cfg (seen @ later)
     \<and> (\<forall>i<length ps. w_state (ps ! i) = Fulfilled \<and> Finish i \<in> set seen)"
proof -
  from c have "await_end cfg seen ([], w) = Some (Inr ps, w')" by (simp add: extraction_def)
  from extraction_completed [OF this wf] obtain used where
    u: "prefix used seen" and e: "End \<in> set used"
    and f: "(ps, w') = fold (deliver cfg) used ([], w)"
    and t: "map target ps = registered cfg (seen @ later)"
    and a: "\<forall>p\<in>set ps. w_state p = Fulfilled"
    by blast
  from u have sub: "set used \<subseteq> set seen" by (rule set_mono_prefix)
  have "\<forall>i<length ps. w_state (ps ! i) = Fulfilled \<and> Finish i \<in> set seen"
  proof (intro allI impI)
    fix i assume i: "i < length ps"
    with a have s: "w_state (ps ! i) = Fulfilled" by simp
    from f have ps: "ps = fst (fold (deliver cfg) used ([], w))" by (metis fst_conv)
    from fold_fulfilled [of i cfg used "([], w)"] i s ps have "Finish i \<in> set used" by simp
    with sub s show "w_state (ps ! i) = Fulfilled \<and> Finish i \<in> set seen" by blast
  qed
  with e sub t show ?thesis by blast
qed

theorem extraction_completes_after_end_and_writes_witness:
  "extraction env_account (ok_response\<lparr>body := two_db_archive\<rparr>) mirror_world
     = Some (Inr two_db_writes, two_db_done_world)
   \<and> entries_before_end (two_db_archive @ [])
   \<and> End \<in> set two_db_archive
   \<and> registered env_account (two_db_archive @ [])
       = [(''/pkg/dbs/GeoLite2-ASN.mmdb'', [1, 2, 3, 4, 5]), (''/pkg/dbs/GeoLite2-Country.mmdb'', [8])]
   \<and> Finish 0 \<in> set two_db_archive \<and> Finish 1 \<in> set two_db_archive"
proof -
  have c: "extraction env_account (ok_response\<lparr>body := two_db_archive\<rparr>) mirror_world
     = Some (Inr two_db_writes, two_db_done_world)"
    by (simp add: run_defs env_account_def mirror_world_def two_db_archive_def ok_response_def
        two_db_writes_def two_db_done_world_def Let_def)
  have wf: "entries_before_end (two_db_archive @ [])"
    by (simp add: two_db_archive_def)
  have c': "extraction env_account ((ok_response\<lparr>body := two_db_archive\<rparr>)\<lparr>body := two_db_archive\<rparr>) mirror_world
     = Some (Inr two_db_writes, two_db_done_world)"
    using c by simp
  from extraction_completes_after_end_and_writes [OF c' wf] c wf show ?thesis
    by (simp add: target_def two_db_writes_def)
qed

lemma extraction_no_other_files:
  assumes x: "extraction cfg resp w = Some (res, w')" and q: "files w' q \<noteq> None"
  shows "files w q \<noteq> None
         \<or> (\<exists>p b. Entry p b \<in> set (body resp) \<and> endsWith p ''.mmdb''
                \<and> q = path_join [downloadPath cfg, basename p])"
proof -
  from x have "await_end cfg (body resp) ([], w) = Some (res, w')" by (simp add: extraction_def)
  from await_end_world [OF this] obtain seen later where
    b: "body resp = seen @ later" and w': "w' = snd (fold (deliver cfg) seen ([], w))" by blast
  from fold_dom [of cfg seen "([], w)"] w'
  have "dom (files w') \<subseteq> dom (files w) \<union> w_dst ` set (fst (fold (deliver cfg) seen ([], w)))"
    by simp
  moreover have "w_dst ` set (fst (fold (deliver cfg) seen ([], w))) = fst ` set (registered cfg seen)"
    using fold_targets [of cfg seen "([], w)"] by (simp add: dst_set_targets)
  ultimately have "dom (files w') \<subseteq> dom (files w) \<union> fst ` set (registered cfg seen)" by simp
  with q have "q \<in> dom (files w) \<or> q \<in> fst ` set (registered cfg seen)" by auto
  then show ?thesis
  proof
    assume "q \<in> dom (files w)"
    then show ?thesis by auto
  next
    assume "q \<in> fst ` set (registered cfg seen)"
    then obtain b0 where "(q, b0) \<in> set (registered cfg seen)" by auto
    then obtain p where "Entry p b0 \<in> set seen" "endsWith p ''.mmdb''"
      "q = path_join [downloadPath cfg, basename p]"
      by (auto simp: registered_set)
    with b show ?thesis by auto
  qed
qed

lemma extraction_writes_entry:
  assumes x: "extraction cfg resp w = Some (Inr ps, w')"
    and wf: "entries_before_end (body resp)"
    and e: "Entry p b \<in> set (body resp)" and m: "endsWith p ''.mmdb''"
  shows "files w' (path_join [downloadPath cfg, basename p]) \<noteq> None
         \<and> (distinct (map fst (registered cfg (body resp))) \<longrightarrow>
              map_option bytes (files w' (path_join [downloadPath cfg, basename p])) = Some b)"
proof -
  let ?dst = "path_join [downloadPath cfg, basename p]"
  from x have a: "await_end cfg (body resp) ([], w) = Some (Inr ps, w')"
    by (simp add: extraction_def)
  from wf have "entries_before_end (body resp @ [])" by simp
  from extraction_completed [OF a this] obtain used where
    f: "(ps, w') = fold (deliver cfg) used ([], w)"
    and t: "map target ps = registered cfg (body resp)"
    and ful: "\<forall>p\<in>set ps. w_state p = Fulfilled"
    by auto
  from e m have "(?dst, b) \<in> set (registered cfg (body resp))"
    by (auto simp: registered_set)
  with t have "(?dst, b) \<in> set (map target ps)" by simp
  then obtain i where i: "i < length ps" and ti: "target (ps ! i) = (?dst, b)"
    by (auto simp: in_set_conv_nth)
  then have dst: "w_dst (ps ! i) = ?dst" and dat: "w_data (ps ! i) = b"
    by (simp_all add: target_def)
  from i ful have fi: "w_state (ps ! i) = Fulfilled" by simp
  have p0: "progress_ok ([], w)" by (simp add: progress_ok_def)
  from fold_progress [OF p0, of cfg used] f have pr: "progress_ok (ps, w')" by simp
  from progress_nth [OF pr i] fi have op: "w_opened (ps ! i)"
    and wr: "w_written (ps ! i) = length (w_data (ps ! i))"
    by (simp_all add: write_ok_def)
  have "dsts_exist ([], w)" by (simp add: dsts_exist_def)
  from fold_dsts [OF this, of cfg used] f have "dsts_exist (ps, w')" by simp
  with i op have "files w' (w_dst (ps ! i)) \<noteq> None" by (simp add: dsts_exist_def)
  with dst have ex: "files w' ?dst \<noteq> None" by simp
  have "map_option bytes (files w' ?dst) = Some b"
    if dd: "distinct (map fst (registered cfg (body resp)))"
  proof -
    from t have "map fst (map target ps) = map fst (registered cfg (body resp))" by simp
    then have "map w_dst ps = map fst (registered cfg (body resp))"
      by (simp add: target_def comp_def)
    with dd f have d: "distinct (map w_dst (fst (fold (deliver cfg) used ([], w))))"
      by (metis fst_conv)
    have "written_ok ([], w)" by (simp add: written_ok_def)
    from fold_written [OF d p0 this] f have "written_ok (ps, w')" by simp
    with i op have "map_option bytes (files w' (w_dst (ps ! i)))
        = Some (take (w_written (ps ! i)) (w_data (ps ! i)))"
      by (simp add: written_ok_def)
    with wr have "map_option bytes (files w' (w_dst (ps ! i))) = Some (w_data (ps ! i))" by simp
    then show ?thesis unfolding dst dat .
  qed
  with ex show ?thesis by blast
qed

text \<open>
  Claim C7, as the code has it. A write to \<open>downloadDirectory/basename(p)\<close>, fed with the
  bytes of the entry, is registered if and only if the path \<open>p\<close> of the entry ends in
  \<open>.mmdb\<close>; for any other entry the handler leaves everything as it is. Whatever the
  outcome of the extraction, a file that exists afterwards and did not exist before is
  the target of an entry whose path ends in \<open>.mmdb\<close>. When the extraction completes, on
  a stream with no entry after \<open>end\<close>, the target of every such entry exists, and it
  holds the bytes of the entry provided no other entry of the archive is written to the
  same file.
\<close>

theorem mmdb_entries_are_written:
  assumes x: "extraction cfg resp w = Some (res, w')"
  shows "(\<forall>q. files w' q \<noteq> None \<longrightarrow>
            files w q \<noteq> None
            \<or> (\<exists>p b. Entry p b \<in> set (body resp) \<and> endsWith p ''.mmdb''
                   \<and> q = path_join [downloadPath cfg, basename p]))
     \<and> (\<forall>ps p b. res = Inr ps \<and> entries_before_end (body resp)
            \<and> Entry p b \<in> set (body resp) \<and> endsWith p ''.mmdb'' \<longrightarrow>
            files w' (path_join [downloadPath cfg, basename p]) \<noteq> None
            \<and> (distinct (map fst (registered cfg (body resp))) \<longrightarrow>
                 map_option bytes (files w' (path_join [downloadPath cfg, basename p])) = Some b))
     \<and> (\<not> endsWith p0 ''.mmdb'' \<longrightarrow> on_entry cfg p0 b0 (ps0, w0) = (ps0, w0))
     \<and> (endsWith p1 ''.mmdb'' \<longrightarrow>
          map target (fst (on_entry cfg p1 b1 (ps1, w1)))
            = map target ps1 @ [(path_join [downloadPath cfg, basename p1], b1)]
          \<and> files (snd (on_entry cfg p1 b1 (ps1, w1))) = files w1)"
proof (intro conjI allI impI)
  fix q assume "files w' q \<noteq> None"
  with x show "files w q \<noteq> None
            \<or> (\<exists>p b. Entry p b \<in> set (body resp) \<and> endsWith p ''.mmdb''
                   \<and> q = path_join [downloadPath cfg, basename p])"
    by (rule extraction_no_other_files)
next
  fix ps p b
  assume a: "res = Inr ps \<and> entries_before_end (body resp)
            \<and> Entry p b \<in> set (body resp) \<and> endsWith p ''.mmdb''"
  with x have x': "extraction cfg resp w = Some (Inr ps, w')" by simp
  from extraction_writes_entry [OF x', of p b] a
  show "files w' (path_join [downloadPath cfg, basename p]) \<noteq> None" by simp
  assume "distinct (map fst (registered cfg (body resp)))"
  with extraction_writes_entry [OF x', of p b] a
  show "map_option bytes (files w' (path_join [downloadPath cfg, basename p])) = Some b" by simp
next
  assume "\<not> endsWith p0 ''.mmdb''"
  then show "on_entry cfg p0 b0 (ps0, w0) = (ps0, w0)" by (simp add: on_entry_def)
next
  assume "endsWith p1 ''.mmdb''"
  then show "map target (fst (on_entry cfg p1 b1 (ps1, w1)))
            = map target ps1 @ [(path_join [downloadPath cfg, basename p1], b1)]"
    by (simp add: on_entry_def Let_def target_def)
next
  assume "endsWith p1 ''.mmdb''"
  then show "files (snd (on_entry cfg p1 b1 (ps1, w1))) = files w1"
    by (simp add: on_entry_def Let_def emit_def)
qed

theorem mmdb_entries_are_written_witness:
  "extraction env_account (ok_response\<lparr>body := two_db_archive\<rparr>) mirror_world
     = Some (Inr two_db_writes, two_db_done_world)
   \<and> entries_before_end two_db_archive
   \<and> Entry ''GeoLite2_20240101/GeoLite2-ASN.mmdb'' [1, 2, 3, 4, 5] \<in> set two_db_archive
   \<and> endsWith ''GeoLite2_20240101/GeoLite2-ASN.mmdb'' ''.mmdb''
   \<and> distinct (map fst (registered env_account two_db_archive))
   \<and> path_join [downloadPath env_account, basename ''GeoLite2_20240101/GeoLite2-ASN.mmdb'']
       = ''/pkg/dbs/GeoLite2-ASN.mmdb''
   \<and> map_option bytes (files two_db_done_world ''/pkg/dbs/GeoLite2-ASN.mmdb'') = Some [1, 2, 3, 4, 5]
   \<and> files two_db_done_world ''/pkg/dbs/GeoLite2-Country.mmdb'' \<noteq> None
   \<and> files mirror_world ''/pkg/dbs/GeoLite2-Country.mmdb'' = None
   \<and> \<not> endsWith ''GeoLite2_20240101/README.txt'' ''.mmdb''
   \<and> on_entry env_account ''GeoLite2_20240101/README.txt'' [7] ([], mirror_world) = ([], mirror_world)
   \<and> files two_db_done_world ''/pkg/dbs/README.txt'' = None"
proof -
  have c: "extraction env_account (ok_response\<lparr>body := two_db_archive\<rparr>) mirror_world
     = Some (Inr two_db_writes, two_db_done_world)"
    by (simp add: run_defs env_account_def mirror_world_def two_db_archive_def ok_response_def
        two_db_writes_def two_db_done_world_def Let_def)
  have wf: "entries_before_end two_db_archive"
    and e: "Entry ''GeoLite2_20240101/GeoLite2-ASN.mmdb'' [1, 2, 3, 4, 5] \<in> set two_db_archive"
    by (simp_all add: two_db_archive_def)
  have m: "endsWith ''GeoLite2_20240101/GeoLite2-ASN.mmdb'' ''.mmdb''"
    and n: "\<not> endsWith ''GeoLite2_20240101/README.txt'' ''.mmdb''"
    by (simp_all add: endsWith_def)
  have j: "path_join [downloadPath env_account, basename ''GeoLite2_20240101/GeoLite2-ASN.mmdb'']
       = ''/pkg/dbs/GeoLite2-ASN.mmdb''"
    by (simp add: downloadPath_env_account path_join_def normalize_def basename_def)
  have d: "distinct (map fst (registered env_account two_db_archive))"
    by (simp add: two_db_archive_def endsWith_def downloadPath_env_account path_join_def
        normalize_def basename_def)
  have f: "files two_db_done_world ''/pkg/dbs/GeoLite2-Country.mmdb'' \<noteq> None"
    "files mirror_world ''/pkg/dbs/GeoLite2-Country.mmdb'' = None"
    "files two_db_done_world ''/pkg/dbs/README.txt'' = None"
    by (simp_all add: two_db_done_world_def mirror_world_def)
  let ?R = "ok_response\<lparr>body := two_db_archive\<rparr>"
  have b: "body ?R = two_db_archive" by simp
  note t = mmdb_entries_are_written [OF c, of "''GeoLite2_20240101/README.txt''" "[7]" "[]"
      mirror_world "''GeoLite2_20240101/GeoLite2-ASN.mmdb''" "[1, 2, 3, 4, 5]" "[]" mirror_world]
  note q = t [THEN conjunct2, THEN conjunct1, rule_format, of two_db_writes
      "''GeoLite2_20240101/GeoLite2-ASN.mmdb''" "[1, 2, 3, 4, 5]"]
  from wf e m have "Inr two_db_writes = Inr two_db_writes \<and> entries_before_end (body ?R)
            \<and> Entry ''GeoLite2_20240101/GeoLite2-ASN.mmdb'' [1, 2, 3, 4, 5] \<in> set (body ?R)
            \<and> endsWith ''GeoLite2_20240101/GeoLite2-ASN.mmdb'' ''.mmdb''"
    unfolding b by blast
  from q [OF this] d have "map_option bytes (files two_db_done_world (path_join [downloadPath env_account, basename ''GeoLite2_20240101/GeoLite2-ASN.mmdb''])) = Some [1, 2, 3, 4, 5]"
    unfolding b by blast
  then have "map_option bytes (files two_db_done_world ''/pkg/dbs/GeoLite2-ASN.mmdb'')
       = Some [1, 2, 3, 4, 5]"
    unfolding j .
  moreover from t n have "on_entry env_account ''GeoLite2_20240101/README.txt'' [7] ([], mirror_world)
       = ([], mirror_world)"
    by blast
  ultimately show ?thesis using c wf e m n j d f by blast
qed

text \<open>
  Claim C7 as written fails: two entries whose paths end in \<open>.mmdb\<close> and have the same
  base name are written to one file through two streams, each at its own position. With
  both streams opened before either writes, the extraction completes and the file holds
  the first byte of the second entry followed by the rest of the first: the bytes of
  neither entry.
\<close>

theorem same_target_entries_overwrite:
  "endsWith ''a/GeoLite2-City.mmdb'' ''.mmdb'' \<and> endsWith ''b/GeoLite2-City.mmdb'' ''.mmdb''
   \<and> path_join [downloadPath env_account, basename ''a/GeoLite2-City.mmdb'']
       = ''/pkg/dbs/GeoLite2-City.mmdb''
   \<and> path_join [downloadPath env_account, basename ''b/GeoLite2-City.mmdb'']
       = ''/pkg/dbs/GeoLite2-City.mmdb''
   \<and> extraction env_account (ok_response\<lparr>body := clash_archive\<rparr>) mirror_world
       = Some (Inr clash_writes, clash_done_world)
   \<and> map_option bytes (files clash_done_world ''/pkg/dbs/GeoLite2-City.mmdb'') = Some [8, 2, 3, 4, 5]"
  by (simp add: run_defs env_account_def mirror_world_def clash_archive_def ok_response_def
      clash_writes_def clash_done_world_def Let_def)

subsection \<open>The run over the editions\<close>















subsection \<open>The script\<close>

text \<open>
  Claim C10. When \<open>getAccountId\<close> throws while the license key is there, the script
  prints the two error lines and then does what it does when \<open>getAccountId\<close> returns
  \<open>undefined\<close>: it runs \<open>main\<close> with no account id, so every URL has the legacy
  shape with the license key as a query parameter and no request carries basic auth.
  A missing license key ends the script with exit code 1 before anything else is done.
\<close>

theorem account_id_failure_falls_back:
  assumes a: "getAccountId h = Inl msg" and l: "getLicense h = Inr (Some k)" and k: "k \<noteq> []"
  shows "postinstall h w
           = postinstall (h\<lparr>getAccountId := Inr None\<rparr>)
               (emit (ConsoleError msg)
                 (emit (ConsoleError ''geolite2: Error retrieving Maxmind Account ID'') w))
     \<and> (let cfg = \<lparr>accountId = None, licenseKey = k, dirname = host_dirname h,
                    dateParse = host_dateParse h\<rparr>
        in postinstall h w
             = exit_with (main cfg (editionIds (getSelectedDbs h))
                 (ensure_dir (downloadPath cfg)
                   (emit (ConsoleError msg)
                     (emit (ConsoleError ''geolite2: Error retrieving Maxmind Account ID'') w))))
           \<and> link cfg e = ''https://download.maxmind.com/app/geoip_download?edition_id='' @ e
                          @ ''&license_key='' @ k @ ''&suffix=tar.gz''
           \<and> request_auth cfg no_options = None \<and> request_auth cfg head_options = None)
     \<and> (getLicense hb = Inr lic \<and> \<not> truthy lic \<and> getAccountId hb = Inr acc \<longrightarrow>
          postinstall hb wb = Some (1, emit (ConsoleError ''Error: License Key is not configured.'') wb))"
  using a l k
  by (simp add: postinstall_def try_get_def truthy_def link_def request_auth_def default_auth_def
      no_options_def head_options_def)

theorem account_id_failure_falls_back_witness:
  "getAccountId host_no_account = Inl ''package.json not found''
   \<and> getLicense host_no_account = Inr (Some ''k3y'') \<and> ''k3y'' \<noteq> []
   \<and> postinstall host_no_account mirror_world
       = Some (0, mirror_world\<lparr>trace :=
           [ConsoleError ''geolite2: Error retrieving Maxmind Account ID'',
            ConsoleError ''package.json not found'',
            ConsoleLog ''Downloading maxmind databases...'',
            HttpRequest ''https://download.maxmind.com/app/geoip_download?edition_id=GeoLite2-ASN&license_key=k3y&suffix=tar.gz''
              (Some ''HEAD'') None,
            ConsoleLog '' > GeoLite2-ASN: Is up to date, skipping download'']\<rparr>)
   \<and> getLicense host_no_license = Inr None \<and> \<not> truthy None
   \<and> getAccountId host_no_license = Inr (Some ''42'')
   \<and> postinstall host_no_license mirror_world
       = Some (1, emit (ConsoleError ''Error: License Key is not configured.'') mirror_world)"
proof -
  have b: "getLicense host_no_license = Inr None \<and> \<not> truthy None
     \<and> getAccountId host_no_license = Inr (Some ''42'')"
    by (simp add: host_no_license_def truthy_def)
  have a: "getAccountId host_no_account = Inl ''package.json not found''"
    and l: "getLicense host_no_account = Inr (Some ''k3y'')" and k: "''k3y'' \<noteq> []"
    by (simp_all add: host_no_account_def)
  have "postinstall (host_no_account\<lparr>getAccountId := Inr None\<rparr>)
               (emit (ConsoleError ''package.json not found'')
                 (emit (ConsoleError ''geolite2: Error retrieving Maxmind Account ID'') mirror_world))
       = Some (0, mirror_world\<lparr>trace :=
           [ConsoleError ''geolite2: Error retrieving Maxmind Account ID'',
            ConsoleError ''package.json not found'',
            ConsoleLog ''Downloading maxmind databases...'',
            HttpRequest ''https://download.maxmind.com/app/geoip_download?edition_id=GeoLite2-ASN&license_key=k3y&suffix=tar.gz''
              (Some ''HEAD'') None,
            ConsoleLog '' > GeoLite2-ASN: Is up to date, skipping download'']\<rparr>)"
    by (simp add: postinstall_def try_get_def host_no_account_def editionIds_def ensure_dir_def
        exit_with_def run_defs mirror_world_def mirror_net_def garbled_response_def
        ok_response_def Let_def)
  with account_id_failure_falls_back [OF a l k, of mirror_world _ host_no_license None "Some ''42''" mirror_world]
    a l k b show ?thesis by simp
qed


end
